theory Spec2Isabelle
  imports Complex_Main "HOL-Library.Sublist"
begin

section \<open>CheckM marker gene finder: data model\<close>

text \<open>
  The module \<^verbatim>\<open>checkm/markerGeneFinder.py\<close> holds one class, \<^verbatim>\<open>MarkerGeneFinder\<close>,
  with three methods: \<^verbatim>\<open>find\<close> (the orchestrator), \<^verbatim>\<open>__processBin\<close> (the body of
  every worker process) and \<^verbatim>\<open>__reportProgress\<close> (the body of the reporter process).
  The processes share two queues and a managed dictionary.  The model is an interleaving
  semantics: a global state, one program counter per process, and a step function that
  runs one statement of one process.  A run is a list of actors (a schedule); every
  theorem about "any run" quantifies over all schedules.

  Python values that may be \<^verbatim>\<open>None\<close> are \<open>string option\<close>: the queues carry bin file
  paths (or bin identifiers) and the sentinel \<^verbatim>\<open>None\<close>, and the source tells them apart
  by \<^verbatim>\<open>== None\<close> only.
\<close>

datatype error = ZeroDivisionError | OSError | CollaboratorError

text \<open>
  The collaborators imported by the module (\<^verbatim>\<open>common\<close>, \<^verbatim>\<open>prodigal\<close>, \<^verbatim>\<open>hmmer\<close>,
  \<^verbatim>\<open>markerSets\<close>, \<^verbatim>\<open>hmmerModelParser\<close>), \<^verbatim>\<open>os.path.join\<close>, \<^verbatim>\<open>os.remove\<close> and the
  float formatting \<^verbatim>\<open>'%.2f' % (float(done)*100/numBins)\<close> are parameters.  They act on
  an abstract outside world \<open>'w\<close> (the file system); a call that raises returns \<open>Inl\<close>.
  \<open>'m\<close> is the type of the model metadata returned by \<^verbatim>\<open>HmmModelParser.models()\<close>.
\<close>

record ('w, 'm) collaborators =
  binIdFromFilename :: "string \<Rightarrow> string"
  os_path_join :: "string list \<Rightarrow> string"
  makeSurePathExists :: "string \<Rightarrow> 'w \<Rightarrow> error + 'w"
  areORFsCalled :: "string \<Rightarrow> 'w \<Rightarrow> bool"
  prodigal_run :: "string \<Rightarrow> string \<Rightarrow> bool \<Rightarrow> 'w \<Rightarrow> error + 'w"
  aaGeneFile :: "string \<Rightarrow> string"
  createHmmModelFile :: "int \<Rightarrow> string \<Rightarrow> string \<Rightarrow> 'w \<Rightarrow> error + string \<times> 'w"
  models :: "string \<Rightarrow> 'w \<Rightarrow> error + 'm"
  hmmer_search ::
    "string \<Rightarrow> string \<Rightarrow> string \<Rightarrow> string \<Rightarrow> string \<Rightarrow> bool \<Rightarrow> 'w \<Rightarrow> error + 'w"
  os_remove :: "string \<Rightarrow> 'w \<Rightarrow> error + 'w"
  format_2f :: "nat \<Rightarrow> nat \<Rightarrow> string"

text \<open>
  The arguments of \<^verbatim>\<open>find\<close>, together with the two attributes of \<^verbatim>\<open>self\<close> that the
  methods read: \<^verbatim>\<open>self.totalThreads\<close> and the logger's effective level.
\<close>

record config =
  totalThreads :: int
  effectiveLevel :: int
  binFiles :: "string option list"
  outDir :: string
  tableOut :: string
  hmmerOut :: string
  markerFile :: string
  bKeepAlignment :: bool
  bNucORFs :: bool

definition logging_INFO :: int where
  "logging_INFO = 20"

text \<open>Calls to collaborators, with their arguments, and the queue operations, as events.\<close>

datatype call =
    MakeSurePathExists string
  | ProdigalRun string string bool
  | CreateHmmModelFile int string string
  | HmmModelParser string
  | HmmerSearch string string string string string bool
  | OsRemove string

datatype event =
    WorkerGet nat "string option"
  | WorkerCall nat call
  | WorkerPut nat string
  | ReporterGet "string option"

text \<open>
  Program counters.  A worker (\<^verbatim>\<open>__processBin\<close>) is at the \<^verbatim>\<open>queueIn.get\<close> of line 86 or
  holds a bin file at one of the statements of lines 90 to 120; the temporary model file of
  line 100 is the second argument from \<open>AtParse\<close> on.  \<open>Raised\<close> is a process that died of
  an uncaught exception.
\<close>

datatype worker =
    NotStarted
  | AtGet
  | AtMkdir string
  | AtProdigal string
  | AtExtract string
  | AtParse string string
  | AtSearch string string
  | AtRemove string string
  | AtPut string
  | Exited
  | Raised error

datatype reporter =
    R_NotStarted
  | R_Init
  | R_Loop nat
  | R_Final
  | R_Exited
  | R_Raised error

datatype 'm orchestrator =
    O_StartWriter
  | O_Start nat
  | O_Join nat
  | O_PutSentinel
  | O_JoinWriter
  | O_Copy
  | O_Returned "string \<Rightarrow> 'm option"

record ('w, 'm) state =
  threadsPerSearch :: int
  workerQueue :: "string option list"
  writerQueue :: "string option list"
  binIdToModels :: "string \<Rightarrow> 'm option"
  calcProc :: "worker list"
  writeProc :: reporter
  orch :: "'m orchestrator"
  world :: 'w
  stderr :: "string list"
  trace :: "event list"

section \<open>The orchestrator: \<^verbatim>\<open>find\<close>\<close>

text \<open>
  Line 45: \<^verbatim>\<open>max(1, int(self.totalThreads / len(binFiles)))\<close>.  The module is Python 2
  (implicit relative imports), where \<^verbatim>\<open>/\<close> on two ints is floor division and raises
  \<^verbatim>\<open>ZeroDivisionError\<close> on a zero divisor.
\<close>

definition threadBudget :: "int \<Rightarrow> nat \<Rightarrow> error + int" where
  "threadBudget threads n =
     (if n = 0 then Inl ZeroDivisionError else Inr (max 1 (threads div int n)))"

text \<open>
  Lines 45 to 60, which run before any other process exists: the thread budget, the two
  queues, the seeding of the worker queue (the bin files, then \<^verbatim>\<open>range(self.totalThreads)\<close>
  times \<^verbatim>\<open>None\<close>), the managed dictionary and the process objects.  The
  \<^verbatim>\<open>logger.info\<close> line of line 46 touches none of these and is left out.
\<close>

definition find_init :: "config \<Rightarrow> 'w \<Rightarrow> error + ('w, 'm) state" where
  "find_init cfg w =
     (case threadBudget (totalThreads cfg) (length (binFiles cfg)) of
        Inl e \<Rightarrow> Inl e
      | Inr t \<Rightarrow> Inr \<lparr>
          threadsPerSearch = t,
          workerQueue = binFiles cfg @ replicate (nat (totalThreads cfg)) None,
          writerQueue = [],
          binIdToModels = Map.empty,
          calcProc = replicate (nat (totalThreads cfg)) NotStarted,
          writeProc = R_NotStarted,
          orch = O_StartWriter,
          world = w,
          stderr = [],
          trace = [] \<rparr>)"

definition finished :: "worker \<Rightarrow> bool" where
  "finished p = (case p of Exited \<Rightarrow> True | Raised e \<Rightarrow> True | _ \<Rightarrow> False)"

definition reporter_joinable :: "reporter \<Rightarrow> bool" where
  "reporter_joinable r = (case r of R_Exited \<Rightarrow> True | R_Raised e \<Rightarrow> True | _ \<Rightarrow> False)"

text \<open>
  Lines 62 to 78, one statement per step.  \<^verbatim>\<open>p.join()\<close> blocks (no step) until the
  process has ended, normally or not.  Lines 74 to 76 copy the managed dictionary when
  every other process has been joined.
\<close>

definition find_step :: "('w, 'm) state \<Rightarrow> ('w, 'm) state option" where
  "find_step s =
     (case orch s of
        O_StartWriter \<Rightarrow> Some (s\<lparr>writeProc := R_Init, orch := O_Start 0\<rparr>)
      | O_Start k \<Rightarrow>
          (if k < length (calcProc s)
           then Some (s\<lparr>calcProc := (calcProc s)[k := AtGet], orch := O_Start (Suc k)\<rparr>)
           else Some (s\<lparr>orch := O_Join 0\<rparr>))
      | O_Join k \<Rightarrow>
          (if k < length (calcProc s)
           then (if finished (calcProc s ! k) then Some (s\<lparr>orch := O_Join (Suc k)\<rparr>) else None)
           else Some (s\<lparr>orch := O_PutSentinel\<rparr>))
      | O_PutSentinel \<Rightarrow>
          Some (s\<lparr>writerQueue := writerQueue s @ [None], orch := O_JoinWriter\<rparr>)
      | O_JoinWriter \<Rightarrow>
          (if reporter_joinable (writeProc s) then Some (s\<lparr>orch := O_Copy\<rparr>) else None)
      | O_Copy \<Rightarrow> Some (s\<lparr>orch := O_Returned (binIdToModels s)\<rparr>)
      | O_Returned d \<Rightarrow> None)"

section \<open>The worker: \<^verbatim>\<open>__processBin\<close>\<close>

text \<open>Python's \<^verbatim>\<open>str\<close> of an int: decimal digits, a minus sign when negative.\<close>

fun str_nat :: "nat \<Rightarrow> string" where
  "str_nat n =
     (if n < 10 then [''0123456789'' ! n]
      else str_nat (n div 10) @ [''0123456789'' ! (n mod 10)])"

definition str_int :: "int \<Rightarrow> string" where
  "str_int i = (if i < 0 then CHR ''-'' # str_nat (nat (- i)) else str_nat (nat i))"

definition binId_of :: "('w, 'm) collaborators \<Rightarrow> string \<Rightarrow> string" where
  "binId_of E binFile = binIdFromFilename E binFile"

text \<open>Line 91: \<^verbatim>\<open>os.path.join(outDir, 'bins', binId)\<close>.\<close>

definition binDir_of :: "('w, 'm) collaborators \<Rightarrow> config \<Rightarrow> string \<Rightarrow> string" where
  "binDir_of E cfg binFile = os_path_join E [outDir cfg, ''bins'', binId_of E binFile]"

text \<open>Lines 111 to 115: the parameter string handed to \<^verbatim>\<open>hmmer.search\<close>.\<close>

definition keepAlignStr :: "config \<Rightarrow> string" where
  "keepAlignStr cfg = (if \<not> bKeepAlignment cfg then ''--noali'' else '''')"

definition search_params :: "config \<Rightarrow> int \<Rightarrow> string" where
  "search_params cfg t =
     ''--cpu '' @ str_int t @ '' --notextw -E 0.1 --domE 0.1 '' @ keepAlignStr cfg"

definition search_call :: "('w, 'm) collaborators \<Rightarrow> config \<Rightarrow> int \<Rightarrow> string \<Rightarrow> string \<Rightarrow> call"
  where
  "search_call E cfg t binFile hmmModelFile =
     HmmerSearch hmmModelFile (aaGeneFile E (binDir_of E cfg binFile))
       (os_path_join E [binDir_of E cfg binFile, tableOut cfg])
       (os_path_join E [binDir_of E cfg binFile, hmmerOut cfg])
       (search_params cfg t) (bKeepAlignment cfg)"

text \<open>
  The outcome of a collaborator call made by worker \<open>i\<close>: the call is recorded; when it
  raises, nothing catches the exception and the process dies; otherwise the world is the
  one the call left and the worker moves to its next statement.
\<close>

definition after_call ::
  "nat \<Rightarrow> call \<Rightarrow> worker \<Rightarrow> error + 'w \<Rightarrow> ('w, 'm) state \<Rightarrow> ('w, 'm) state" where
  "after_call i c nxt r s =
     (case r of
        Inl e \<Rightarrow> s\<lparr>calcProc := (calcProc s)[i := Raised e], trace := trace s @ [WorkerCall i c]\<rparr>
      | Inr w \<Rightarrow> s\<lparr>calcProc := (calcProc s)[i := nxt], world := w,
                   trace := trace s @ [WorkerCall i c]\<rparr>)"

definition processBin_step ::
  "('w, 'm) collaborators \<Rightarrow> config \<Rightarrow> nat \<Rightarrow> ('w, 'm) state \<Rightarrow> ('w, 'm) state option" where
  "processBin_step E cfg i s =
     (if length (calcProc s) \<le> i then None
      else case calcProc s ! i of
        NotStarted \<Rightarrow> None
      | AtGet \<Rightarrow>
          (case workerQueue s of
             [] \<Rightarrow> None
           | x # q \<Rightarrow>
               Some (s\<lparr>workerQueue := q,
                       calcProc := (calcProc s)
                         [i := (case x of None \<Rightarrow> Exited | Some binFile \<Rightarrow> AtMkdir binFile)],
                       trace := trace s @ [WorkerGet i x]\<rparr>))
      | AtMkdir binFile \<Rightarrow>
          Some (after_call i (MakeSurePathExists (binDir_of E cfg binFile)) (AtProdigal binFile)
                  (makeSurePathExists E (binDir_of E cfg binFile) (world s)) s)
      | AtProdigal binFile \<Rightarrow>
          (if \<not> areORFsCalled E (binDir_of E cfg binFile) (world s)
           then Some (after_call i (ProdigalRun (binDir_of E cfg binFile) binFile (bNucORFs cfg))
                        (AtExtract binFile)
                        (prodigal_run E (binDir_of E cfg binFile) binFile (bNucORFs cfg) (world s))
                        s)
           else Some (s\<lparr>calcProc := (calcProc s)[i := AtExtract binFile]\<rparr>))
      | AtExtract binFile \<Rightarrow>
          (case createHmmModelFile E (threadsPerSearch s) (binId_of E binFile) (markerFile cfg)
                  (world s) of
             Inl e \<Rightarrow>
               Some (s\<lparr>calcProc := (calcProc s)[i := Raised e],
                       trace := trace s @
                         [WorkerCall i (CreateHmmModelFile (threadsPerSearch s)
                            (binId_of E binFile) (markerFile cfg))]\<rparr>)
           | Inr (hmmModelFile, w) \<Rightarrow>
               Some (s\<lparr>calcProc := (calcProc s)[i := AtParse binFile hmmModelFile], world := w,
                       trace := trace s @
                         [WorkerCall i (CreateHmmModelFile (threadsPerSearch s)
                            (binId_of E binFile) (markerFile cfg))]\<rparr>))
      | AtParse binFile hmmModelFile \<Rightarrow>
          (case models E hmmModelFile (world s) of
             Inl e \<Rightarrow>
               Some (s\<lparr>calcProc := (calcProc s)[i := Raised e],
                       trace := trace s @ [WorkerCall i (HmmModelParser hmmModelFile)]\<rparr>)
           | Inr m \<Rightarrow>
               Some (s\<lparr>binIdToModels := (binIdToModels s)(binId_of E binFile \<mapsto> m),
                       calcProc := (calcProc s)[i := AtSearch binFile hmmModelFile],
                       trace := trace s @ [WorkerCall i (HmmModelParser hmmModelFile)]\<rparr>))
      | AtSearch binFile hmmModelFile \<Rightarrow>
          Some (after_call i (search_call E cfg (threadsPerSearch s) binFile hmmModelFile)
                  (AtRemove binFile hmmModelFile)
                  (hmmer_search E hmmModelFile (aaGeneFile E (binDir_of E cfg binFile))
                     (os_path_join E [binDir_of E cfg binFile, tableOut cfg])
                     (os_path_join E [binDir_of E cfg binFile, hmmerOut cfg])
                     (search_params cfg (threadsPerSearch s)) (bKeepAlignment cfg) (world s))
                  s)
      | AtRemove binFile hmmModelFile \<Rightarrow>
          Some (after_call i (OsRemove hmmModelFile) (AtPut binFile)
                  (os_remove E hmmModelFile (world s)) s)
      | AtPut binFile \<Rightarrow>
          Some (s\<lparr>writerQueue := writerQueue s @ [Some (binId_of E binFile)],
                  calcProc := (calcProc s)[i := AtGet],
                  trace := trace s @ [WorkerPut i (binId_of E binFile)]\<rparr>)
      | Exited \<Rightarrow> None
      | Raised e \<Rightarrow> None)"

section \<open>The reporter: \<^verbatim>\<open>__reportProgress\<close>\<close>

text \<open>
  Lines 127 and 138: the status string.  The two \<^verbatim>\<open>%d\<close> are \<open>str_nat\<close>; the
  \<^verbatim>\<open>%.2f\<close> of the float quotient is the collaborator \<open>format_2f\<close>.  The division raises
  when \<^verbatim>\<open>numBins\<close> is zero.
\<close>

definition statusStr :: "('w, 'm) collaborators \<Rightarrow> nat \<Rightarrow> nat \<Rightarrow> error + string" where
  "statusStr E numProcessedBins numBins =
     (if numBins = 0 then Inl ZeroDivisionError
      else Inr (''    Finished processing '' @ str_nat numProcessedBins @ '' of '' @
                str_nat numBins @ '' ('' @ format_2f E numProcessedBins numBins @
                ''%) bins.''))"

definition info_enabled :: "config \<Rightarrow> bool" where
  "info_enabled cfg = (effectiveLevel cfg \<le> logging_INFO)"

text \<open>Lines 126 to 129 and 136 to 140: write the status line, followed by a carriage return.\<close>

definition write_status ::
  "('w, 'm) collaborators \<Rightarrow> config \<Rightarrow> nat \<Rightarrow> ('w, 'm) state \<Rightarrow> ('w, 'm) state" where
  "write_status E cfg n s =
     (case statusStr E n (length (binFiles cfg)) of
        Inl e \<Rightarrow> s\<lparr>writeProc := R_Raised e\<rparr>
      | Inr str \<Rightarrow> s\<lparr>writeProc := R_Loop n, stderr := stderr s @ [str @ [CHR 0x0D]]\<rparr>)"

definition reportProgress_step ::
  "('w, 'm) collaborators \<Rightarrow> config \<Rightarrow> ('w, 'm) state \<Rightarrow> ('w, 'm) state option" where
  "reportProgress_step E cfg s =
     (case writeProc s of
        R_NotStarted \<Rightarrow> None
      | R_Init \<Rightarrow>
          (if info_enabled cfg then Some (write_status E cfg 0 s)
           else Some (s\<lparr>writeProc := R_Loop 0\<rparr>))
      | R_Loop n \<Rightarrow>
          (case writerQueue s of
             [] \<Rightarrow> None
           | x # q \<Rightarrow>
               (case x of
                  None \<Rightarrow>
                    Some (s\<lparr>writerQueue := q, writeProc := R_Final,
                            trace := trace s @ [ReporterGet x]\<rparr>)
                | Some binId \<Rightarrow>
                    (if info_enabled cfg
                     then Some (write_status E cfg (Suc n)
                                  (s\<lparr>writerQueue := q, trace := trace s @ [ReporterGet x]\<rparr>))
                     else Some (s\<lparr>writerQueue := q, trace := trace s @ [ReporterGet x]\<rparr>))))
      | R_Final \<Rightarrow>
          (if info_enabled cfg
           then Some (s\<lparr>writeProc := R_Exited, stderr := stderr s @ [[CHR 0x0A]]\<rparr>)
           else Some (s\<lparr>writeProc := R_Exited\<rparr>))
      | R_Exited \<Rightarrow> None
      | R_Raised e \<Rightarrow> None)"

section \<open>Runs\<close>

datatype actor = Orchestrator | Worker nat | Reporter

definition step ::
  "('w, 'm) collaborators \<Rightarrow> config \<Rightarrow> actor \<Rightarrow> ('w, 'm) state \<Rightarrow> ('w, 'm) state option" where
  "step E cfg a s =
     (case a of
        Orchestrator \<Rightarrow> find_step s
      | Worker i \<Rightarrow> processBin_step E cfg i s
      | Reporter \<Rightarrow> reportProgress_step E cfg s)"

fun exec ::
  "('w, 'm) collaborators \<Rightarrow> config \<Rightarrow> actor list \<Rightarrow> ('w, 'm) state \<Rightarrow> ('w, 'm) state option"
  where
  "exec E cfg [] s = Some s"
| "exec E cfg (a # sched) s =
     (case step E cfg a s of None \<Rightarrow> None | Some s' \<Rightarrow> exec E cfg sched s')"

section \<open>Histories, invariants and the termination measure\<close>

text \<open>What the trace says was dequeued by workers, enqueued by workers, and seen by the reporter.\<close>

fun got_items :: "event list \<Rightarrow> string option list" where
  "got_items [] = []"
| "got_items (WorkerGet i x # tr) = x # got_items tr"
| "got_items (ev # tr) = got_items tr"

fun put_items :: "event list \<Rightarrow> string list" where
  "put_items [] = []"
| "put_items (WorkerPut i b # tr) = b # put_items tr"
| "put_items (ev # tr) = put_items tr"

fun reported :: "event list \<Rightarrow> string list" where
  "reported [] = []"
| "reported (ReporterGet (Some b) # tr) = b # reported tr"
| "reported (ev # tr) = reported tr"

definition new_events :: "('w, 'm) state \<Rightarrow> ('w, 'm) state \<Rightarrow> event list" where
  "new_events s s' = drop (length (trace s)) (trace s')"

definition live :: "worker \<Rightarrow> nat" where
  "live p = (if finished p then 0 else 1)"

definition holds_job :: "worker \<Rightarrow> nat" where
  "holds_job p = (case p of NotStarted \<Rightarrow> 0 | AtGet \<Rightarrow> 0 | Exited \<Rightarrow> 0 | _ \<Rightarrow> 1)"

text \<open>Which processes the orchestrator has started and joined at each of its statements.\<close>

fun started :: "'m orchestrator \<Rightarrow> nat \<Rightarrow> bool" where
  "started O_StartWriter i = False"
| "started (O_Start k) i = (i < k)"
| "started _ i = True"

fun joined :: "'m orchestrator \<Rightarrow> nat \<Rightarrow> bool" where
  "joined O_StartWriter i = False"
| "joined (O_Start k) i = False"
| "joined (O_Join k) i = (i < k)"
| "joined _ i = True"

fun writer_joined :: "'m orchestrator \<Rightarrow> bool" where
  "writer_joined O_Copy = True"
| "writer_joined (O_Returned d) = True"
| "writer_joined _ = False"

fun sentinel_put :: "'m orchestrator \<Rightarrow> bool" where
  "sentinel_put O_JoinWriter = True"
| "sentinel_put O_Copy = True"
| "sentinel_put (O_Returned d) = True"
| "sentinel_put _ = False"

definition all_finished :: "('w, 'm) state \<Rightarrow> bool" where
  "all_finished s \<longleftrightarrow> list_all finished (calcProc s)"

definition all_exited :: "('w, 'm) state \<Rightarrow> bool" where
  "all_exited s \<longleftrightarrow> list_all (\<lambda>p. p = Exited) (calcProc s)"

definition reporter_past_loop :: "reporter \<Rightarrow> bool" where
  "reporter_past_loop r = (case r of R_Final \<Rightarrow> True | R_Exited \<Rightarrow> True | _ \<Rightarrow> False)"

definition I_orch :: "('w, 'm) state \<Rightarrow> bool" where
  "I_orch s \<longleftrightarrow>
     (\<forall>i < length (calcProc s).
        (calcProc s ! i = NotStarted) = (\<not> started (orch s) i) \<and>
        (joined (orch s) i \<longrightarrow> finished (calcProc s ! i))) \<and>
     (writeProc s = R_NotStarted) = (orch s = O_StartWriter) \<and>
     (writer_joined (orch s) \<longrightarrow> reporter_joinable (writeProc s)) \<and>
     (\<forall>d. orch s = O_Returned d \<longrightarrow> d = binIdToModels s)"

definition I_budget :: "config \<Rightarrow> ('w, 'm) state \<Rightarrow> bool" where
  "I_budget cfg s \<longleftrightarrow>
     binFiles cfg \<noteq> [] \<and>
     length (calcProc s) = nat (totalThreads cfg) \<and>
     threadsPerSearch s = max 1 (totalThreads cfg div int (length (binFiles cfg)))"

definition I_fifo :: "config \<Rightarrow> ('w, 'm) state \<Rightarrow> bool" where
  "I_fifo cfg s \<longleftrightarrow>
     got_items (trace s) @ workerQueue s =
       binFiles cfg @ replicate (length (calcProc s)) None"

definition I_sentinels :: "('w, 'm) state \<Rightarrow> bool" where
  "I_sentinels s \<longleftrightarrow>
     sum_list (map live (calcProc s)) \<le> length (filter (\<lambda>x. x = None) (workerQueue s))"

definition I_exited :: "('w, 'm) state \<Rightarrow> bool" where
  "I_exited s \<longleftrightarrow>
     (\<forall>i < length (calcProc s). calcProc s ! i = Exited \<longrightarrow> WorkerGet i None \<in> set (trace s))"

definition I_count :: "('w, 'm) state \<Rightarrow> bool" where
  "I_count s \<longleftrightarrow>
     length (filter (\<lambda>x. x \<noteq> None) (got_items (trace s))) =
       length (put_items (trace s)) + sum_list (map holds_job (calcProc s))"

definition exited01 :: "worker \<Rightarrow> nat" where
  "exited01 p = (if p = Exited then 1 else 0)"

definition I_nones :: "('w, 'm) state \<Rightarrow> bool" where
  "I_nones s \<longleftrightarrow>
     length (filter (\<lambda>x. x = None) (got_items (trace s))) =
       sum_list (map exited01 (calcProc s))"

text \<open>A worker that holds bin file \<open>f\<close> and has not yet stored its models (or has died).\<close>

definition pre_record :: "string \<Rightarrow> worker \<Rightarrow> bool" where
  "pre_record f p =
     (case p of AtMkdir g \<Rightarrow> g = f | AtProdigal g \<Rightarrow> g = f | AtExtract g \<Rightarrow> g = f
      | AtParse g h \<Rightarrow> g = f | Raised e \<Rightarrow> True | _ \<Rightarrow> False)"

fun job_of :: "worker \<Rightarrow> string option" where
  "job_of (AtMkdir f) = Some f"
| "job_of (AtProdigal f) = Some f"
| "job_of (AtExtract f) = Some f"
| "job_of (AtParse f h) = Some f"
| "job_of (AtSearch f h) = Some f"
| "job_of (AtRemove f h) = Some f"
| "job_of (AtPut f) = Some f"
| "job_of _ = None"

definition I_dom :: "('w, 'm) collaborators \<Rightarrow> ('w, 'm) state \<Rightarrow> bool" where
  "I_dom E s \<longleftrightarrow>
     (\<forall>b \<in> dom (binIdToModels s). \<exists>f. Some f \<in> set (got_items (trace s)) \<and> b = binId_of E f) \<and>
     (\<forall>f. Some f \<in> set (got_items (trace s)) \<longrightarrow>
        binId_of E f \<in> dom (binIdToModels s) \<or>
        (\<exists>i < length (calcProc s). pre_record f (calcProc s ! i))) \<and>
     (\<forall>i < length (calcProc s). \<forall>f. job_of (calcProc s ! i) = Some f \<longrightarrow>
        Some f \<in> set (got_items (trace s)))"

text \<open>A worker that holds bin file \<open>f\<close> and has stored its models.\<close>

definition post_record :: "string \<Rightarrow> worker \<Rightarrow> bool" where
  "post_record f p =
     (case p of AtSearch g h \<Rightarrow> g = f | AtRemove g h \<Rightarrow> g = f | AtPut g \<Rightarrow> g = f
      | _ \<Rightarrow> False)"

definition I_recorded :: "('w, 'm) collaborators \<Rightarrow> ('w, 'm) state \<Rightarrow> bool" where
  "I_recorded E s \<longleftrightarrow>
     (\<forall>i < length (calcProc s). \<forall>f. post_record f (calcProc s ! i) \<longrightarrow>
        binId_of E f \<in> dom (binIdToModels s))"

definition sentinel_pending :: "('w, 'm) state \<Rightarrow> bool" where
  "sentinel_pending s \<longleftrightarrow> sentinel_put (orch s) \<and> \<not> reporter_past_loop (writeProc s)"

definition I_writer :: "config \<Rightarrow> ('w, 'm) state \<Rightarrow> bool" where
  "I_writer cfg s \<longleftrightarrow>
     map Some (reported (trace s)) @ writerQueue s =
       map Some (put_items (trace s)) @ (if sentinel_pending s then [None] else []) \<and>
     (reporter_past_loop (writeProc s) \<longrightarrow> sentinel_put (orch s) \<and> writerQueue s = []) \<and>
     (\<forall>e. writeProc s \<noteq> R_Raised e) \<and>
     (writeProc s = R_NotStarted \<or> writeProc s = R_Init \<longrightarrow> reported (trace s) = []) \<and>
     (\<forall>n. writeProc s = R_Loop n \<longrightarrow>
        n = (if info_enabled cfg then length (reported (trace s)) else 0))"

text \<open>The status line of lines 127/128 and 138/139 when \<^verbatim>\<open>numBins\<close> is positive.\<close>

definition status_line :: "('w, 'm) collaborators \<Rightarrow> nat \<Rightarrow> nat \<Rightarrow> string" where
  "status_line E numBins k =
     ''    Finished processing '' @ str_nat k @ '' of '' @ str_nat numBins @ '' ('' @
     format_2f E k numBins @ ''%) bins.'' @ [CHR 0x0D]"

definition expected_stderr ::
  "('w, 'm) collaborators \<Rightarrow> config \<Rightarrow> reporter \<Rightarrow> nat \<Rightarrow> string list" where
  "expected_stderr E cfg r k =
     (if info_enabled cfg
      then (case r of
              R_NotStarted \<Rightarrow> []
            | R_Init \<Rightarrow> []
            | R_Exited \<Rightarrow>
                map (status_line E (length (binFiles cfg))) [0 ..< Suc k] @ [[CHR 0x0A]]
            | _ \<Rightarrow> map (status_line E (length (binFiles cfg))) [0 ..< Suc k])
      else [])"

definition I_stderr :: "('w, 'm) collaborators \<Rightarrow> config \<Rightarrow> ('w, 'm) state \<Rightarrow> bool" where
  "I_stderr E cfg s \<longleftrightarrow>
     stderr s = expected_stderr E cfg (writeProc s) (length (reported (trace s)))"

definition search_ok :: "config \<Rightarrow> int \<Rightarrow> event \<Rightarrow> bool" where
  "search_ok cfg t ev =
     (case ev of
        WorkerCall i c \<Rightarrow>
          (case c of
             HmmerSearch h a tb fl p k \<Rightarrow> p = search_params cfg t \<and> k = bKeepAlignment cfg
           | _ \<Rightarrow> True)
      | _ \<Rightarrow> True)"

definition I_calls :: "config \<Rightarrow> ('w, 'm) state \<Rightarrow> bool" where
  "I_calls cfg s \<longleftrightarrow> list_all (search_ok cfg (threadsPerSearch s)) (trace s)"


text \<open>
  Calls of the profile search in a trace, and the workers that still have to make the call
  for the bin they hold, or have made it and not yet notified the bin.
\<close>

definition is_search_ev :: "event \<Rightarrow> bool" where
  "is_search_ev ev =
     (case ev of
        WorkerCall i c \<Rightarrow> (case c of HmmerSearch h a tb fl p k \<Rightarrow> True | _ \<Rightarrow> False)
      | _ \<Rightarrow> False)"

definition search_count :: "event list \<Rightarrow> nat" where
  "search_count tr = length (filter is_search_ev tr)"

definition before_search :: "worker \<Rightarrow> nat" where
  "before_search p =
     (case p of AtMkdir f \<Rightarrow> 1 | AtProdigal f \<Rightarrow> 1 | AtExtract f \<Rightarrow> 1 | AtParse f h \<Rightarrow> 1
      | AtSearch f h \<Rightarrow> 1 | _ \<Rightarrow> 0)"

definition after_search :: "worker \<Rightarrow> nat" where
  "after_search p = (case p of AtRemove f h \<Rightarrow> 1 | AtPut f \<Rightarrow> 1 | _ \<Rightarrow> 0)"


definition inv :: "('w, 'm) collaborators \<Rightarrow> config \<Rightarrow> ('w, 'm) state \<Rightarrow> bool" where
  "inv E cfg s \<longleftrightarrow>
     I_orch s \<and> I_budget cfg s \<and> I_fifo cfg s \<and> I_sentinels s \<and> I_exited s \<and> I_count s \<and>
     I_dom E s \<and> I_writer cfg s \<and> I_stderr E cfg s \<and> I_calls cfg s \<and> I_nones s \<and>
     I_recorded E s"

text \<open>
  The number of statements still to run bounds the length of every run: each step of any
  process lowers it.
\<close>

definition worker_weight :: "worker \<Rightarrow> nat" where
  "worker_weight p =
     (case p of
        NotStarted \<Rightarrow> 1 | AtGet \<Rightarrow> 1 | AtMkdir f \<Rightarrow> 10 | AtProdigal f \<Rightarrow> 9 | AtExtract f \<Rightarrow> 8
      | AtParse f h \<Rightarrow> 7 | AtSearch f h \<Rightarrow> 6 | AtRemove f h \<Rightarrow> 5 | AtPut f \<Rightarrow> 4
      | Exited \<Rightarrow> 0 | Raised e \<Rightarrow> 0)"

definition reporter_weight :: "reporter \<Rightarrow> nat" where
  "reporter_weight r =
     (case r of
        R_NotStarted \<Rightarrow> 3 | R_Init \<Rightarrow> 3 | R_Loop n \<Rightarrow> 2 | R_Final \<Rightarrow> 1 | R_Exited \<Rightarrow> 0
      | R_Raised e \<Rightarrow> 0)"

definition orch_weight :: "nat \<Rightarrow> 'm orchestrator \<Rightarrow> nat" where
  "orch_weight n oc =
     (case oc of
        O_StartWriter \<Rightarrow> 2 * n + 8 | O_Start k \<Rightarrow> (n - k) + n + 7
      | O_Join k \<Rightarrow> (n - k) + 5
      | O_PutSentinel \<Rightarrow> 4 | O_JoinWriter \<Rightarrow> 2 | O_Copy \<Rightarrow> 1 | O_Returned d \<Rightarrow> 0)"

definition find_measure :: "('w, 'm) state \<Rightarrow> nat" where
  "find_measure s =
     orch_weight (length (calcProc s)) (orch s) + sum_list (map worker_weight (calcProc s)) +
     10 * length (workerQueue s) + reporter_weight (writeProc s) + length (writerQueue s)"

definition stuck :: "('w, 'm) collaborators \<Rightarrow> config \<Rightarrow> ('w, 'm) state \<Rightarrow> bool" where
  "stuck E cfg s \<longleftrightarrow>
     find_step s = None \<and> reportProgress_step E cfg s = None \<and>
     list_all (\<lambda>i. processBin_step E cfg i s = None) [0 ..< length (calcProc s)]"

section \<open>A specification of the thread budget and example inputs\<close>

text \<open>
  The thread budget as the specification words it: the larger of one and the floor of the
  quotient of the total thread count by the job count.
\<close>

definition spec_ThreadBudgetPlanner :: "int \<Rightarrow> nat \<Rightarrow> int" where
  "spec_ThreadBudgetPlanner threads jobCount =
     max 1 \<lfloor>real_of_int threads / real jobCount\<rfloor>"

text \<open>
  Example collaborators over a world that lists the bin directories whose genes have been
  called: the bin identifier is the file name up to its first dot, paths are joined with a
  slash, and \<^verbatim>\<open>os.remove\<close> succeeds or fails as the flag says.
\<close>

definition demo_env :: "bool \<Rightarrow> (string list, string) collaborators" where
  "demo_env rm_ok = \<lparr>
     binIdFromFilename = takeWhile (\<lambda>c. c \<noteq> CHR ''.''),
     os_path_join = (\<lambda>ps. foldr (\<lambda>p acc. if acc = [] then p else p @ ''/'' @ acc) ps []),
     makeSurePathExists = (\<lambda>d w. Inr w),
     areORFsCalled = (\<lambda>d w. d \<in> set w),
     prodigal_run = (\<lambda>d f b w. Inr (d # w)),
     aaGeneFile = (\<lambda>d. d @ ''/genes.faa''),
     createHmmModelFile = (\<lambda>t b m w. Inr (''/tmp/'' @ b @ ''.hmm'', w)),
     models = (\<lambda>h w. Inr h),
     hmmer_search = (\<lambda>h a t f p k w. Inr w),
     os_remove = (\<lambda>h w. if rm_ok then Inr w else Inl OSError),
     format_2f = (\<lambda>d n. str_nat (100 * d div n) @ ''.'' @
                    str_nat (1000 * d div n mod 10) @ str_nat (10000 * d div n mod 10)) \<rparr>"

definition demo_cfg :: "int \<Rightarrow> string option list \<Rightarrow> config" where
  "demo_cfg t fs = \<lparr> totalThreads = t, effectiveLevel = 20, binFiles = fs, outDir = ''out'',
     tableOut = ''t.txt'', hmmerOut = ''h.txt'', markerFile = ''m.hmm'',
     bKeepAlignment = False, bNucORFs = False \<rparr>"

text \<open>
  A complete run of two bins on two workers: everything is started, worker 0 processes the
  first bin and worker 1 the second, both dequeue a sentinel, the reporter sees both
  completions, the orchestrator joins, stops the reporter and returns.
\<close>

definition demo_sched2 :: "actor list" where
  "demo_sched2 =
     [Orchestrator, Orchestrator, Orchestrator, Orchestrator, Reporter] @
     replicate 8 (Worker 0) @ replicate 8 (Worker 1) @
     [Worker 0, Worker 1, Reporter, Reporter, Orchestrator, Orchestrator, Orchestrator,
      Orchestrator, Reporter, Reporter, Orchestrator, Orchestrator]"

text \<open>
  A complete run with one worker that takes the given number of worker steps (eight per
  bin that is processed, one for the sentinel) and the given number of notifications seen
  by the reporter.
\<close>

definition demo_sched1 :: "nat \<Rightarrow> nat \<Rightarrow> actor list" where
  "demo_sched1 k r =
     [Orchestrator, Orchestrator, Orchestrator, Reporter] @
     replicate k (Worker 0) @ replicate r Reporter @
     [Orchestrator, Orchestrator, Orchestrator, Reporter, Reporter, Orchestrator, Orchestrator]"

section \<open>Basic facts about histories and steps\<close>

lemma got_items_append [simp]: "got_items (tr @ tr') = got_items tr @ got_items tr'"
  by (induction tr rule: got_items.induct) simp_all

lemma put_items_append [simp]: "put_items (tr @ tr') = put_items tr @ put_items tr'"
  by (induction tr rule: put_items.induct) simp_all

lemma reported_append [simp]: "reported (tr @ tr') = reported tr @ reported tr'"
  by (induction tr rule: reported.induct) simp_all

lemma live_simps [simp]:
  "live NotStarted = 1" "live AtGet = 1" "live (AtMkdir f) = 1" "live (AtProdigal f) = 1"
  "live (AtExtract f) = 1" "live (AtParse f h) = 1" "live (AtSearch f h) = 1"
  "live (AtRemove f h) = 1" "live (AtPut f) = 1" "live Exited = 0" "live (Raised e) = 0"
  by (simp_all add: live_def finished_def)

lemma holds_job_simps [simp]:
  "holds_job NotStarted = 0" "holds_job AtGet = 0" "holds_job (AtMkdir f) = 1"
  "holds_job (AtProdigal f) = 1" "holds_job (AtExtract f) = 1" "holds_job (AtParse f h) = 1"
  "holds_job (AtSearch f h) = 1" "holds_job (AtRemove f h) = 1" "holds_job (AtPut f) = 1"
  "holds_job Exited = 0" "holds_job (Raised e) = 1"
  by (simp_all add: holds_job_def)

lemma worker_weight_simps [simp]:
  "worker_weight NotStarted = 1" "worker_weight AtGet = 1" "worker_weight (AtMkdir f) = 10"
  "worker_weight (AtProdigal f) = 9" "worker_weight (AtExtract f) = 8"
  "worker_weight (AtParse f h) = 7" "worker_weight (AtSearch f h) = 6"
  "worker_weight (AtRemove f h) = 5" "worker_weight (AtPut f) = 4"
  "worker_weight Exited = 0" "worker_weight (Raised e) = 0"
  by (simp_all add: worker_weight_def)

lemma finished_simps [simp]:
  "\<not> finished NotStarted" "\<not> finished AtGet" "\<not> finished (AtMkdir f)"
  "\<not> finished (AtProdigal f)" "\<not> finished (AtExtract f)" "\<not> finished (AtParse f h)"
  "\<not> finished (AtSearch f h)" "\<not> finished (AtRemove f h)" "\<not> finished (AtPut f)"
  "finished Exited" "finished (Raised e)"
  by (simp_all add: finished_def)

lemma sum_list_map_update:
  "i < length xs \<Longrightarrow>
   sum_list (map f (xs[i := v])) + f (xs ! i) = sum_list (map f xs) + (f v :: nat)"
proof (induction xs arbitrary: i)
  case Nil
  then show ?case by simp
next
  case (Cons x xs)
  then show ?case by (cases i) (simp_all add: add.assoc add.left_commute)
qed

lemma sum_list_map_update_same:
  "i < length xs \<Longrightarrow> f v = (f (xs ! i) :: nat) \<Longrightarrow>
   sum_list (map f (xs[i := v])) = sum_list (map f xs)"
  using sum_list_map_update [of i xs f v] by simp

text \<open>Every way a worker can take a step, with the state it leaves.\<close>

lemma processBin_step_cases
  [consumes 1, case_names Get Raise Mkdir Skip Prodigal Extract Parse Search Remove Put]:
  assumes "processBin_step E cfg i s = Some s'"
  obtains
    (Get) x q where "i < length (calcProc s)" "calcProc s ! i = AtGet" "workerQueue s = x # q"
      "s' = s\<lparr>workerQueue := q,
              calcProc := (calcProc s)
                [i := (case x of None \<Rightarrow> Exited | Some binFile \<Rightarrow> AtMkdir binFile)],
              trace := trace s @ [WorkerGet i x]\<rparr>"
  | (Raise) c e where "i < length (calcProc s)" "holds_job (calcProc s ! i) = 1"
      "\<not> finished (calcProc s ! i)" "5 \<le> worker_weight (calcProc s ! i)"
      "calcProc s ! i \<noteq> NotStarted" "search_ok cfg (threadsPerSearch s) (WorkerCall i c)"
      "s' = s\<lparr>calcProc := (calcProc s)[i := Raised e], trace := trace s @ [WorkerCall i c]\<rparr>"
  | (Mkdir) f w where "i < length (calcProc s)" "calcProc s ! i = AtMkdir f"
      "s' = s\<lparr>calcProc := (calcProc s)[i := AtProdigal f], world := w,
              trace := trace s @ [WorkerCall i (MakeSurePathExists (binDir_of E cfg f))]\<rparr>"
  | (Skip) f where "i < length (calcProc s)" "calcProc s ! i = AtProdigal f"
      "areORFsCalled E (binDir_of E cfg f) (world s)"
      "s' = s\<lparr>calcProc := (calcProc s)[i := AtExtract f]\<rparr>"
  | (Prodigal) f w where "i < length (calcProc s)" "calcProc s ! i = AtProdigal f"
      "\<not> areORFsCalled E (binDir_of E cfg f) (world s)"
      "s' = s\<lparr>calcProc := (calcProc s)[i := AtExtract f], world := w,
              trace := trace s @
                [WorkerCall i (ProdigalRun (binDir_of E cfg f) f (bNucORFs cfg))]\<rparr>"
  | (Extract) f h w where "i < length (calcProc s)" "calcProc s ! i = AtExtract f"
      "s' = s\<lparr>calcProc := (calcProc s)[i := AtParse f h], world := w,
              trace := trace s @ [WorkerCall i (CreateHmmModelFile (threadsPerSearch s)
                 (binId_of E f) (markerFile cfg))]\<rparr>"
  | (Parse) f h m where "i < length (calcProc s)" "calcProc s ! i = AtParse f h"
      "s' = s\<lparr>binIdToModels := (binIdToModels s)(binId_of E f \<mapsto> m),
              calcProc := (calcProc s)[i := AtSearch f h],
              trace := trace s @ [WorkerCall i (HmmModelParser h)]\<rparr>"
  | (Search) f h w where "i < length (calcProc s)" "calcProc s ! i = AtSearch f h"
      "s' = s\<lparr>calcProc := (calcProc s)[i := AtRemove f h], world := w,
              trace := trace s @ [WorkerCall i (search_call E cfg (threadsPerSearch s) f h)]\<rparr>"
  | (Remove) f h w where "i < length (calcProc s)" "calcProc s ! i = AtRemove f h"
      "s' = s\<lparr>calcProc := (calcProc s)[i := AtPut f], world := w,
              trace := trace s @ [WorkerCall i (OsRemove h)]\<rparr>"
  | (Put) f where "i < length (calcProc s)" "calcProc s ! i = AtPut f"
      "s' = s\<lparr>writerQueue := writerQueue s @ [Some (binId_of E f)],
              calcProc := (calcProc s)[i := AtGet],
              trace := trace s @ [WorkerPut i (binId_of E f)]\<rparr>"
proof -
  have lt: "i < length (calcProc s)"
    using assms by (simp add: processBin_step_def split: if_splits)
  show thesis
  proof (cases "calcProc s ! i")
    case NotStarted
    with assms lt show ?thesis by (simp add: processBin_step_def)
  next
    case AtGet
    with assms lt show ?thesis
      by (auto simp: processBin_step_def split: list.splits intro: Get)
  next
    case (AtMkdir f)
    show ?thesis
    proof (cases "makeSurePathExists E (binDir_of E cfg f) (world s)")
      case (Inl e)
      show ?thesis
        by (rule Raise [where c = "MakeSurePathExists (binDir_of E cfg f)" and e = e])
          (use assms lt AtMkdir Inl in
            \<open>simp_all add: processBin_step_def after_call_def search_ok_def\<close>)
    next
      case (Inr w)
      show ?thesis
        by (rule Mkdir [where f = f and w = w])
          (use assms lt AtMkdir Inr in \<open>simp_all add: processBin_step_def after_call_def\<close>)
    qed
  next
    case (AtProdigal f)
    show ?thesis
    proof (cases "areORFsCalled E (binDir_of E cfg f) (world s)")
      case True
      show ?thesis
        by (rule Skip [where f = f])
          (use assms lt AtProdigal True in \<open>simp_all add: processBin_step_def\<close>)
    next
      case False
      show ?thesis
      proof (cases "prodigal_run E (binDir_of E cfg f) f (bNucORFs cfg) (world s)")
        case (Inl e)
        show ?thesis
          by (rule Raise [where c = "ProdigalRun (binDir_of E cfg f) f (bNucORFs cfg)" and e = e])
            (use assms lt AtProdigal False Inl in
              \<open>simp_all add: processBin_step_def after_call_def search_ok_def\<close>)
      next
        case (Inr w)
        show ?thesis
          by (rule Prodigal [where f = f and w = w])
            (use assms lt AtProdigal False Inr in
              \<open>simp_all add: processBin_step_def after_call_def\<close>)
      qed
    qed
  next
    case (AtExtract f)
    show ?thesis
    proof (cases "createHmmModelFile E (threadsPerSearch s) (binId_of E f) (markerFile cfg)
                    (world s)")
      case (Inl e)
      show ?thesis
        by (rule Raise [where c = "CreateHmmModelFile (threadsPerSearch s) (binId_of E f)
                              (markerFile cfg)" and e = e])
          (use assms lt AtExtract Inl in \<open>simp_all add: processBin_step_def search_ok_def\<close>)
    next
      case (Inr hw)
      show ?thesis
        by (rule Extract [where f = f and h = "fst hw" and w = "snd hw"])
          (use assms lt AtExtract Inr in
            \<open>simp_all add: processBin_step_def split: prod.splits\<close>)
    qed
  next
    case (AtParse f h)
    show ?thesis
    proof (cases "models E h (world s)")
      case (Inl e)
      show ?thesis
        by (rule Raise [where c = "HmmModelParser h" and e = e])
          (use assms lt AtParse Inl in \<open>simp_all add: processBin_step_def search_ok_def\<close>)
    next
      case (Inr m)
      show ?thesis
        by (rule Parse [where f = f and h = h and m = m])
          (use assms lt AtParse Inr in \<open>simp_all add: processBin_step_def\<close>)
    qed
  next
    case (AtSearch f h)
    show ?thesis
    proof (cases "hmmer_search E h (aaGeneFile E (binDir_of E cfg f))
                    (os_path_join E [binDir_of E cfg f, tableOut cfg])
                    (os_path_join E [binDir_of E cfg f, hmmerOut cfg])
                    (search_params cfg (threadsPerSearch s)) (bKeepAlignment cfg) (world s)")
      case (Inl e)
      show ?thesis
        by (rule Raise [where c = "search_call E cfg (threadsPerSearch s) f h" and e = e])
          (use assms lt AtSearch Inl in
            \<open>simp_all add: processBin_step_def after_call_def search_ok_def search_call_def\<close>)
    next
      case (Inr w)
      show ?thesis
        by (rule Search [where f = f and h = h and w = w])
          (use assms lt AtSearch Inr in \<open>simp_all add: processBin_step_def after_call_def\<close>)
    qed
  next
    case (AtRemove f h)
    show ?thesis
    proof (cases "os_remove E h (world s)")
      case (Inl e)
      show ?thesis
        by (rule Raise [where c = "OsRemove h" and e = e])
          (use assms lt AtRemove Inl in
            \<open>simp_all add: processBin_step_def after_call_def search_ok_def\<close>)
    next
      case (Inr w)
      show ?thesis
        by (rule Remove [where f = f and h = h and w = w])
          (use assms lt AtRemove Inr in \<open>simp_all add: processBin_step_def after_call_def\<close>)
    qed
  next
    case (AtPut f)
    with assms lt show ?thesis
      by (auto simp: processBin_step_def intro: Put)
  next
    case Exited
    with assms lt show ?thesis by (simp add: processBin_step_def)
  next
    case (Raised e)
    with assms lt show ?thesis by (simp add: processBin_step_def)
  qed
qed

lemma processBin_step_frame:
  assumes "processBin_step E cfg i s = Some s'"
  shows "i < length (calcProc s)" and "\<not> finished (calcProc s ! i)"
    and "calcProc s ! i \<noteq> NotStarted"
    and "orch s' = orch s" and "writeProc s' = writeProc s" and "stderr s' = stderr s"
    and "threadsPerSearch s' = threadsPerSearch s"
    and "\<exists>p'. p' \<noteq> NotStarted \<and> calcProc s' = (calcProc s)[i := p']"
    and "reported (trace s') = reported (trace s)"
    and "length (calcProc s') = length (calcProc s)"
  using assms
  by (cases rule: processBin_step_cases; auto split: option.splits)+

lemma find_step_frame:
  assumes "find_step s = Some s'"
  shows "workerQueue s' = workerQueue s" and "trace s' = trace s"
    and "binIdToModels s' = binIdToModels s" and "world s' = world s"
    and "stderr s' = stderr s" and "threadsPerSearch s' = threadsPerSearch s"
    and "calcProc s' = calcProc s \<or>
         (\<exists>k. orch s = O_Start k \<and> k < length (calcProc s) \<and>
              calcProc s' = (calcProc s)[k := AtGet])"
    and "writerQueue s' = writerQueue s \<and> (orch s = O_PutSentinel) = (orch s' = O_JoinWriter) \<or>
         orch s = O_PutSentinel \<and> orch s' = O_JoinWriter \<and>
         writerQueue s' = writerQueue s @ [None]"
    and "writeProc s' = writeProc s \<or> orch s = O_StartWriter \<and> writeProc s' = R_Init"
    and "length (calcProc s') = length (calcProc s)"
  using assms
  by (auto simp: find_step_def split: orchestrator.splits if_splits)

lemma reportProgress_step_frame:
  assumes "reportProgress_step E cfg s = Some s'"
  shows "calcProc s' = calcProc s" and "orch s' = orch s" and "workerQueue s' = workerQueue s"
    and "binIdToModels s' = binIdToModels s" and "threadsPerSearch s' = threadsPerSearch s"
    and "world s' = world s"
    and "\<not> reporter_joinable (writeProc s)" and "writeProc s \<noteq> R_NotStarted"
    and "writeProc s' \<noteq> R_NotStarted"
    and "got_items (trace s') = got_items (trace s)"
    and "put_items (trace s') = put_items (trace s)"
  using assms
  by (auto simp: reportProgress_step_def write_status_def reporter_joinable_def
      split: reporter.splits list.splits option.splits sum.splits if_splits)

lemma step_length_calcProc:
  "step E cfg a s = Some s' \<Longrightarrow> length (calcProc s') = length (calcProc s)"
  using processBin_step_frame(10) [of E cfg _ s s'] reportProgress_step_frame(1) [of E cfg s s']
    find_step_frame(10) [of s s']
  by (cases a) (auto simp: step_def)

text \<open>Every way the reporter can take a step when there is at least one bin.\<close>

lemma write_status_eq:
  "binFiles cfg \<noteq> [] \<Longrightarrow>
   write_status E cfg n s =
     s\<lparr>writeProc := R_Loop n, stderr := stderr s @ [status_line E (length (binFiles cfg)) n]\<rparr>"
  by (simp add: write_status_def statusStr_def status_line_def)

lemma reportProgress_step_cases [consumes 2, case_names Init GetSome GetNone Final]:
  assumes "reportProgress_step E cfg s = Some s'" and "binFiles cfg \<noteq> []"
  obtains
    (Init) "writeProc s = R_Init"
      "s' = s\<lparr>writeProc := R_Loop 0,
              stderr := stderr s @
                (if info_enabled cfg then [status_line E (length (binFiles cfg)) 0] else [])\<rparr>"
  | (GetSome) n b q where "writeProc s = R_Loop n" "writerQueue s = Some b # q"
      "s' = s\<lparr>writerQueue := q, trace := trace s @ [ReporterGet (Some b)],
              writeProc := R_Loop (if info_enabled cfg then Suc n else n),
              stderr := stderr s @
                (if info_enabled cfg then [status_line E (length (binFiles cfg)) (Suc n)]
                 else [])\<rparr>"
  | (GetNone) n q where "writeProc s = R_Loop n" "writerQueue s = None # q"
      "s' = s\<lparr>writerQueue := q, writeProc := R_Final, trace := trace s @ [ReporterGet None]\<rparr>"
  | (Final) "writeProc s = R_Final"
      "s' = s\<lparr>writeProc := R_Exited,
              stderr := stderr s @ (if info_enabled cfg then [[CHR 0x0A]] else [])\<rparr>"
proof (cases "writeProc s")
  case R_NotStarted
  with assms show ?thesis by (simp add: reportProgress_step_def)
next
  case R_Init
  with assms show ?thesis
    by (intro Init) (auto simp: reportProgress_step_def write_status_eq)
next
  case (R_Loop n)
  show ?thesis
  proof (cases "writerQueue s")
    case Nil
    with assms R_Loop show ?thesis by (simp add: reportProgress_step_def)
  next
    case (Cons x q)
    show ?thesis
    proof (cases x)
      case None
      show ?thesis
        by (rule GetNone [where n = n and q = q])
          (use assms R_Loop Cons None in \<open>simp_all add: reportProgress_step_def\<close>)
    next
      case (Some b)
      show ?thesis
        by (rule GetSome [where n = n and q = q and b = b])
          (use assms R_Loop Cons Some in
            \<open>auto simp: reportProgress_step_def write_status_eq\<close>)
    qed
  qed
next
  case R_Final
  with assms show ?thesis
    by (intro Final) (auto simp: reportProgress_step_def)
next
  case R_Exited
  with assms show ?thesis by (simp add: reportProgress_step_def)
next
  case (R_Raised e)
  with assms show ?thesis by (simp add: reportProgress_step_def)
qed

section \<open>The invariants hold along every run\<close>

subsection \<open>Started and joined processes\<close>

lemma I_orch_find_step:
  assumes "I_orch s" and "find_step s = Some s'"
  shows "I_orch s'"
proof (cases "orch s")
  case O_StartWriter
  with assms show ?thesis by (auto simp: I_orch_def find_step_def)
next
  case (O_Start k)
  with assms show ?thesis
    by (auto simp: I_orch_def find_step_def nth_list_update less_Suc_eq split: if_splits)
next
  case (O_Join k)
  with assms show ?thesis
    by (auto simp: I_orch_def find_step_def less_Suc_eq split: if_splits)
next
  case O_PutSentinel
  with assms show ?thesis by (auto simp: I_orch_def find_step_def)
next
  case O_JoinWriter
  with assms show ?thesis by (auto simp: I_orch_def find_step_def split: if_splits)
next
  case O_Copy
  with assms show ?thesis by (auto simp: I_orch_def find_step_def)
next
  case (O_Returned d)
  with assms show ?thesis by (simp add: find_step_def)
qed

lemma worker_step_not_joined:
  assumes "I_orch s" and st: "processBin_step E cfg i s = Some s'"
  shows "\<not> joined (orch s) i" and "\<not> sentinel_put (orch s)" and "started (orch s) i"
proof -
  note fr = processBin_step_frame [OF st]
  show nj: "\<not> joined (orch s) i"
    using assms(1) fr(1,2) by (auto simp: I_orch_def)
  then show "\<not> sentinel_put (orch s)"
    by (cases "orch s") auto
  show "started (orch s) i"
    using assms(1) fr(1,3) by (auto simp: I_orch_def)
qed

lemma I_orch_processBin_step:
  assumes "I_orch s" and st: "processBin_step E cfg i s = Some s'"
  shows "I_orch s'"
proof -
  note fr = processBin_step_frame [OF st]
  from fr(8) obtain p' where p': "p' \<noteq> NotStarted" "calcProc s' = (calcProc s)[i := p']"
    by blast
  have nj: "\<not> joined (orch s) i"
    by (rule worker_step_not_joined [OF assms])
  then have "\<forall>d. orch s \<noteq> O_Returned d" by auto
  with assms(1) fr p' nj show ?thesis
    by (auto simp: I_orch_def nth_list_update)
qed

lemma I_orch_reportProgress_step:
  assumes "I_orch s" and st: "reportProgress_step E cfg s = Some s'"
  shows "I_orch s'"
proof -
  note fr = reportProgress_step_frame [OF st]
  have "\<not> writer_joined (orch s)"
    using assms(1) fr(7) by (auto simp: I_orch_def)
  with assms(1) fr show ?thesis
    by (auto simp: I_orch_def)
qed

lemma find_step_sum:
  assumes "I_orch s" and st: "find_step s = Some s'"
    and f: "f AtGet = f NotStarted"
  shows "sum_list (map f (calcProc s')) = (sum_list (map f (calcProc s)) :: nat)"
proof -
  from find_step_frame(7) [OF st] show ?thesis
  proof
    assume "calcProc s' = calcProc s"
    then show ?thesis by simp
  next
    assume "\<exists>k. orch s = O_Start k \<and> k < length (calcProc s) \<and>
              calcProc s' = (calcProc s)[k := AtGet]"
    then obtain k where k: "orch s = O_Start k" "k < length (calcProc s)"
      "calcProc s' = (calcProc s)[k := AtGet]" by blast
    from assms(1) k(1,2) have "calcProc s ! k = NotStarted"
      by (simp add: I_orch_def)
    with sum_list_map_update_same [OF k(2), of f AtGet] f k(3) show ?thesis by simp
  qed
qed

lemma find_step_nth:
  assumes "I_orch s" and st: "find_step s = Some s'" and "i < length (calcProc s)"
  shows "calcProc s' ! i = calcProc s ! i \<or>
         calcProc s ! i = NotStarted \<and> calcProc s' ! i = AtGet"
proof -
  from find_step_frame(7) [OF st] show ?thesis
  proof
    assume "calcProc s' = calcProc s"
    then show ?thesis by simp
  next
    assume "\<exists>k. orch s = O_Start k \<and> k < length (calcProc s) \<and>
              calcProc s' = (calcProc s)[k := AtGet]"
    then obtain k where k: "orch s = O_Start k" "k < length (calcProc s)"
      "calcProc s' = (calcProc s)[k := AtGet]" by blast
    from assms(1) k(1,2) have "calcProc s ! k = NotStarted"
      by (simp add: I_orch_def)
    with k assms(3) show ?thesis by (auto simp: nth_list_update)
  qed
qed

subsection \<open>The thread budget and the number of workers\<close>

lemma I_budget_step:
  assumes "I_budget cfg s" and "step E cfg a s = Some s'"
  shows "I_budget cfg s'"
proof -
  have "length (calcProc s') = length (calcProc s)"
    using assms(2) by (rule step_length_calcProc)
  moreover have "threadsPerSearch s' = threadsPerSearch s"
    using assms(2) processBin_step_frame(7) [of E cfg _ s s']
      reportProgress_step_frame(5) [of E cfg s s'] find_step_frame(6) [of s s']
    by (cases a) (auto simp: step_def)
  ultimately show ?thesis using assms(1) by (simp add: I_budget_def)
qed

subsection \<open>The worker queue is consumed in order\<close>

lemma I_fifo_step:
  assumes "I_fifo cfg s" and "step E cfg a s = Some s'"
  shows "I_fifo cfg s'"
proof (cases a)
  case Orchestrator
  with assms(2) have st: "find_step s = Some s'" by (simp add: step_def)
  from find_step_frame [OF st] assms(1) show ?thesis by (simp add: I_fifo_def)
next
  case (Worker i)
  with assms(2) have st: "processBin_step E cfg i s = Some s'" by (simp add: step_def)
  from st assms(1) show ?thesis
    by (cases rule: processBin_step_cases) (auto simp: I_fifo_def)
next
  case Reporter
  with assms(2) have st: "reportProgress_step E cfg s = Some s'" by (simp add: step_def)
  from reportProgress_step_frame [OF st] assms(1) show ?thesis by (simp add: I_fifo_def)
qed

subsection \<open>There is a sentinel left for every live worker\<close>

lemma I_sentinels_step:
  assumes "I_sentinels s" and "I_orch s" and "step E cfg a s = Some s'"
  shows "I_sentinels s'"
proof (cases a)
  case Orchestrator
  with assms(3) have st: "find_step s = Some s'" by (simp add: step_def)
  from find_step_sum [OF assms(2) st, of live] find_step_frame(1) [OF st] assms(1)
  show ?thesis by (simp add: I_sentinels_def)
next
  case (Worker i)
  with assms(3) have st: "processBin_step E cfg i s = Some s'" by (simp add: step_def)
  from st show ?thesis
  proof (cases rule: processBin_step_cases)
    case (Get x q)
    with assms(1) sum_list_map_update [OF Get(1), of live
        "case x of None \<Rightarrow> Exited | Some binFile \<Rightarrow> AtMkdir binFile"]
    show ?thesis by (cases x) (auto simp: I_sentinels_def)
  next
    case (Raise c e)
    with assms(1) sum_list_map_update [OF Raise(1), of live "Raised e"]
    show ?thesis by (auto simp: I_sentinels_def)
  qed (use assms(1) in \<open>auto simp: I_sentinels_def sum_list_map_update_same\<close>)
next
  case Reporter
  with assms(3) have st: "reportProgress_step E cfg s = Some s'" by (simp add: step_def)
  from reportProgress_step_frame [OF st] assms(1) show ?thesis by (simp add: I_sentinels_def)
qed

subsection \<open>A worker that exited has dequeued a sentinel\<close>

lemma I_exited_step:
  assumes "I_exited s" and "I_orch s" and "step E cfg a s = Some s'"
  shows "I_exited s'"
proof (cases a)
  case Orchestrator
  with assms(3) have st: "find_step s = Some s'" by (simp add: step_def)
  show ?thesis
    unfolding I_exited_def
  proof (intro allI impI)
    fix i assume i: "i < length (calcProc s')" "calcProc s' ! i = Exited"
    with find_step_nth [OF assms(2) st, of i] find_step_frame(10) [OF st]
    have "calcProc s ! i = Exited" "i < length (calcProc s)" by auto
    with assms(1) find_step_frame(2) [OF st] show "WorkerGet i None \<in> set (trace s')"
      by (simp add: I_exited_def)
  qed
next
  case (Worker i)
  with assms(3) have st: "processBin_step E cfg i s = Some s'" by (simp add: step_def)
  from st assms(1) show ?thesis
    by (cases rule: processBin_step_cases)
      (auto simp: I_exited_def nth_list_update split: option.splits if_splits)
next
  case Reporter
  with assms(3) have st: "reportProgress_step E cfg s = Some s'" by (simp add: step_def)
  from st assms(1) show ?thesis
    by (auto simp: I_exited_def reportProgress_step_def write_status_def
        split: reporter.splits list.splits option.splits sum.splits if_splits)
qed

subsection \<open>Every dequeued bin file is held by a worker or has been notified\<close>

lemma I_count_step:
  assumes "I_count s" and "I_orch s" and "step E cfg a s = Some s'"
  shows "I_count s'"
proof (cases a)
  case Orchestrator
  with assms(3) have st: "find_step s = Some s'" by (simp add: step_def)
  from find_step_sum [OF assms(2) st, of holds_job] find_step_frame(2) [OF st] assms(1)
  show ?thesis by (simp add: I_count_def)
next
  case (Worker i)
  with assms(3) have st: "processBin_step E cfg i s = Some s'" by (simp add: step_def)
  from st show ?thesis
  proof (cases rule: processBin_step_cases)
    case (Get x q)
    with assms(1) sum_list_map_update [OF Get(1), of holds_job
        "case x of None \<Rightarrow> Exited | Some binFile \<Rightarrow> AtMkdir binFile"]
    show ?thesis by (cases x) (auto simp: I_count_def)
  next
    case (Put f)
    with assms(1) sum_list_map_update [OF Put(1), of holds_job AtGet]
    show ?thesis by (auto simp: I_count_def)
  qed (use assms(1) in \<open>auto simp: I_count_def sum_list_map_update_same\<close>)
next
  case Reporter
  with assms(3) have st: "reportProgress_step E cfg s = Some s'" by (simp add: step_def)
  from reportProgress_step_frame [OF st] assms(1) show ?thesis by (simp add: I_count_def)
qed

lemma exited01_simps [simp]:
  "exited01 NotStarted = 0" "exited01 AtGet = 0" "exited01 (AtMkdir f) = 0"
  "exited01 (AtProdigal f) = 0" "exited01 (AtExtract f) = 0" "exited01 (AtParse f h) = 0"
  "exited01 (AtSearch f h) = 0" "exited01 (AtRemove f h) = 0" "exited01 (AtPut f) = 0"
  "exited01 Exited = 1" "exited01 (Raised e) = 0"
  by (simp_all add: exited01_def)

lemma I_nones_step:
  assumes "I_nones s" and "I_orch s" and "step E cfg a s = Some s'"
  shows "I_nones s'"
proof (cases a)
  case Orchestrator
  with assms(3) have st: "find_step s = Some s'" by (simp add: step_def)
  from find_step_sum [OF assms(2) st, of exited01] find_step_frame(2) [OF st] assms(1)
  show ?thesis by (simp add: I_nones_def)
next
  case (Worker i)
  with assms(3) have st: "processBin_step E cfg i s = Some s'" by (simp add: step_def)
  from st show ?thesis
  proof (cases rule: processBin_step_cases)
    case (Get x q)
    with assms(1) sum_list_map_update [OF Get(1), of exited01
        "case x of None \<Rightarrow> Exited | Some binFile \<Rightarrow> AtMkdir binFile"]
    show ?thesis by (cases x) (auto simp: I_nones_def)
  next
    case (Raise c e)
    from Raise(3) have "exited01 (calcProc s ! i) = 0" by (auto simp: exited01_def)
    with Raise assms(1) sum_list_map_update [OF Raise(1), of exited01 "Raised e"]
    show ?thesis by (auto simp: I_nones_def)
  qed (use assms(1) in \<open>auto simp: I_nones_def sum_list_map_update_same\<close>)
next
  case Reporter
  with assms(3) have st: "reportProgress_step E cfg s = Some s'" by (simp add: step_def)
  from reportProgress_step_frame [OF st] assms(1) show ?thesis by (simp add: I_nones_def)
qed

subsection \<open>The keys of the dictionary\<close>

lemma pre_record_simps [simp]:
  "\<not> pre_record f NotStarted" "\<not> pre_record f AtGet" "pre_record f (AtMkdir g) = (g = f)"
  "pre_record f (AtProdigal g) = (g = f)" "pre_record f (AtExtract g) = (g = f)"
  "pre_record f (AtParse g h) = (g = f)" "\<not> pre_record f (AtSearch g h)"
  "\<not> pre_record f (AtRemove g h)" "\<not> pre_record f (AtPut g)" "\<not> pre_record f Exited"
  "pre_record f (Raised e)"
  by (simp_all add: pre_record_def)

lemma I_dom_update:
  assumes "I_dom E s" and i: "i < length (calcProc s)"
    and keep: "\<And>f. pre_record f (calcProc s ! i) \<Longrightarrow> pre_record f p' \<or> binId_of E f \<in> dom m'"
    and job: "\<And>f. job_of p' = Some f \<Longrightarrow> Some f \<in> set (got_items tr')"
    and pre: "\<And>f. Some f \<in> set (got_items tr') \<Longrightarrow>
               Some f \<in> set (got_items (trace s)) \<or> pre_record f p'"
    and mono: "set (got_items (trace s)) \<subseteq> set (got_items tr')"
    and dom_mono: "dom (binIdToModels s) \<subseteq> dom m'"
    and dom_new: "\<And>b. b \<in> dom m' \<Longrightarrow> b \<in> dom (binIdToModels s) \<or>
               (\<exists>f. Some f \<in> set (got_items tr') \<and> b = binId_of E f)"
    and s': "calcProc s' = (calcProc s)[i := p']" "binIdToModels s' = m'" "trace s' = tr'"
  shows "I_dom E s'"
  unfolding I_dom_def
proof (intro conjI ballI allI impI)
  fix b assume "b \<in> dom (binIdToModels s')"
  with dom_new [of b] s' assms(1) mono
  show "\<exists>f. Some f \<in> set (got_items (trace s')) \<and> b = binId_of E f"
    unfolding I_dom_def by blast
next
  fix f assume f: "Some f \<in> set (got_items (trace s'))"
  show "binId_of E f \<in> dom (binIdToModels s') \<or>
        (\<exists>j < length (calcProc s'). pre_record f (calcProc s' ! j))"
  proof (cases "pre_record f p'")
    case True
    with i s' show ?thesis by (auto simp: nth_list_update)
  next
    case False
    with pre [of f] f s' have "Some f \<in> set (got_items (trace s))" by auto
    with assms(1) consider "binId_of E f \<in> dom (binIdToModels s)"
      | j where "j < length (calcProc s)" "pre_record f (calcProc s ! j)"
      unfolding I_dom_def by blast
    then show ?thesis
    proof cases
      case 1
      with dom_mono s' show ?thesis by auto
    next
      case (2 j)
      show ?thesis
      proof (cases "j = i")
        case True
        with 2 keep [of f] False s' show ?thesis by auto
      next
        case neq: False
        with 2 s' show ?thesis by (auto simp: nth_list_update)
      qed
    qed
  qed
next
  fix j f assume j: "j < length (calcProc s')" "job_of (calcProc s' ! j) = Some f"
  show "Some f \<in> set (got_items (trace s'))"
  proof (cases "j = i")
    case True
    with j s' i job [of f] show ?thesis by simp
  next
    case False
    with j s' have "j < length (calcProc s)" "job_of (calcProc s ! j) = Some f" by auto
    with assms(1) mono s' show ?thesis unfolding I_dom_def by blast
  qed
qed

lemma I_dom_job:
  "I_dom E s \<Longrightarrow> i < length (calcProc s) \<Longrightarrow> job_of (calcProc s ! i) = Some f \<Longrightarrow>
   Some f \<in> set (got_items (trace s))"
  unfolding I_dom_def by blast

lemma I_dom_step:
  assumes "I_dom E s" and "I_orch s" and "step E cfg a s = Some s'"
  shows "I_dom E s'"
proof (cases a)
  case Orchestrator
  with assms(3) have st: "find_step s = Some s'" by (simp add: step_def)
  note fr = find_step_frame [OF st]
  from fr(7) show ?thesis
  proof
    assume "calcProc s' = calcProc s"
    with fr assms(1) show ?thesis by (simp add: I_dom_def)
  next
    assume "\<exists>k. orch s = O_Start k \<and> k < length (calcProc s) \<and>
              calcProc s' = (calcProc s)[k := AtGet]"
    then obtain k where k: "orch s = O_Start k" "k < length (calcProc s)"
      "calcProc s' = (calcProc s)[k := AtGet]" by blast
    from assms(2) k(1,2) have "calcProc s ! k = NotStarted"
      by (simp add: I_orch_def)
    with k fr show ?thesis
      by (intro I_dom_update [OF assms(1) k(2), where p' = AtGet]) auto
  qed
next
  case (Worker i)
  with assms(3) have st: "processBin_step E cfg i s = Some s'" by (simp add: step_def)
  from st show ?thesis
  proof (cases rule: processBin_step_cases)
    case (Get x q)
    then show ?thesis
      by (intro I_dom_update [OF assms(1) Get(1),
            where p' = "case x of None \<Rightarrow> Exited | Some binFile \<Rightarrow> AtMkdir binFile"])
        (auto split: option.splits)
  next
    case (Raise c e)
    then show ?thesis
      by (intro I_dom_update [OF assms(1) Raise(1), where p' = "Raised e"]) auto
  next
    case (Mkdir f w)
    with I_dom_job [OF assms(1) Mkdir(1), of f] show ?thesis
      by (intro I_dom_update [OF assms(1) Mkdir(1), where p' = "AtProdigal f"]) auto
  next
    case (Skip f)
    with I_dom_job [OF assms(1) Skip(1), of f] show ?thesis
      by (intro I_dom_update [OF assms(1) Skip(1), where p' = "AtExtract f"]) auto
  next
    case (Prodigal f w)
    with I_dom_job [OF assms(1) Prodigal(1), of f] show ?thesis
      by (intro I_dom_update [OF assms(1) Prodigal(1), where p' = "AtExtract f"]) auto
  next
    case (Extract f h w)
    with I_dom_job [OF assms(1) Extract(1), of f] show ?thesis
      by (intro I_dom_update [OF assms(1) Extract(1), where p' = "AtParse f h"]) auto
  next
    case (Parse f h m)
    with I_dom_job [OF assms(1) Parse(1), of f] show ?thesis
      by (intro I_dom_update [OF assms(1) Parse(1), where p' = "AtSearch f h"]) auto
  next
    case (Search f h w)
    with I_dom_job [OF assms(1) Search(1), of f] show ?thesis
      by (intro I_dom_update [OF assms(1) Search(1), where p' = "AtRemove f h"]) auto
  next
    case (Remove f h w)
    with I_dom_job [OF assms(1) Remove(1), of f] show ?thesis
      by (intro I_dom_update [OF assms(1) Remove(1), where p' = "AtPut f"]) auto
  next
    case (Put f)
    then show ?thesis
      by (intro I_dom_update [OF assms(1) Put(1), where p' = AtGet]) auto
  qed
next
  case Reporter
  with assms(3) have st: "reportProgress_step E cfg s = Some s'" by (simp add: step_def)
  from reportProgress_step_frame [OF st] assms(1) show ?thesis by (simp add: I_dom_def)
qed

lemma post_record_simps [simp]:
  "\<not> post_record f NotStarted" "\<not> post_record f AtGet" "\<not> post_record f (AtMkdir g)"
  "\<not> post_record f (AtProdigal g)" "\<not> post_record f (AtExtract g)"
  "\<not> post_record f (AtParse g h)" "post_record f (AtSearch g h) = (g = f)"
  "post_record f (AtRemove g h) = (g = f)" "post_record f (AtPut g) = (g = f)"
  "\<not> post_record f Exited" "\<not> post_record f (Raised e)"
  by (simp_all add: post_record_def)

lemma I_recorded_update:
  assumes "I_recorded E s" and "i < length (calcProc s)"
    and "\<And>f. post_record f p' \<Longrightarrow> binId_of E f \<in> dom m'"
    and "dom (binIdToModels s) \<subseteq> dom m'"
    and "calcProc s' = (calcProc s)[i := p']" "binIdToModels s' = m'"
  shows "I_recorded E s'"
  unfolding I_recorded_def
proof (intro allI impI)
  fix j f assume j: "j < length (calcProc s')" "post_record f (calcProc s' ! j)"
  show "binId_of E f \<in> dom (binIdToModels s')"
  proof (cases "j = i")
    case True
    with j assms show ?thesis by simp
  next
    case False
    with j assms(5) have "j < length (calcProc s)" "post_record f (calcProc s ! j)" by auto
    with assms(1,4,6) show ?thesis unfolding I_recorded_def by blast
  qed
qed

lemma I_recorded_step:
  assumes "I_recorded E s" and "I_orch s" and "step E cfg a s = Some s'"
  shows "I_recorded E s'"
proof (cases a)
  case Orchestrator
  with assms(3) have st: "find_step s = Some s'" by (simp add: step_def)
  note fr = find_step_frame [OF st]
  from fr(7) show ?thesis
  proof
    assume "calcProc s' = calcProc s"
    with fr assms(1) show ?thesis by (simp add: I_recorded_def)
  next
    assume "\<exists>k. orch s = O_Start k \<and> k < length (calcProc s) \<and>
              calcProc s' = (calcProc s)[k := AtGet]"
    then obtain k where k: "orch s = O_Start k" "k < length (calcProc s)"
      "calcProc s' = (calcProc s)[k := AtGet]" by blast
    with fr show ?thesis
      by (intro I_recorded_update [OF assms(1) k(2), where p' = AtGet]) auto
  qed
next
  case (Worker i)
  with assms(3) have st: "processBin_step E cfg i s = Some s'" by (simp add: step_def)
  have rec: "binId_of E f \<in> dom (binIdToModels s)" if "post_record f (calcProc s ! i)" for f
    using that assms(1) processBin_step_frame(1) [OF st] unfolding I_recorded_def by blast
  from st show ?thesis
  proof (cases rule: processBin_step_cases)
    case (Get x q)
    then show ?thesis
      by (intro I_recorded_update [OF assms(1) Get(1),
            where p' = "case x of None \<Rightarrow> Exited | Some binFile \<Rightarrow> AtMkdir binFile"])
        (auto split: option.splits)
  next
    case (Raise c e)
    then show ?thesis
      by (intro I_recorded_update [OF assms(1) Raise(1), where p' = "Raised e"]) auto
  next
    case (Mkdir f w)
    then show ?thesis
      by (intro I_recorded_update [OF assms(1) Mkdir(1), where p' = "AtProdigal f"]) auto
  next
    case (Skip f)
    then show ?thesis
      by (intro I_recorded_update [OF assms(1) Skip(1), where p' = "AtExtract f"]) auto
  next
    case (Prodigal f w)
    then show ?thesis
      by (intro I_recorded_update [OF assms(1) Prodigal(1), where p' = "AtExtract f"]) auto
  next
    case (Extract f h w)
    then show ?thesis
      by (intro I_recorded_update [OF assms(1) Extract(1), where p' = "AtParse f h"]) auto
  next
    case (Parse f h m)
    then show ?thesis
      by (intro I_recorded_update [OF assms(1) Parse(1), where p' = "AtSearch f h"]) auto
  next
    case (Search f h w)
    with rec [of f] show ?thesis
      by (intro I_recorded_update [OF assms(1) Search(1), where p' = "AtRemove f h"]) auto
  next
    case (Remove f h w)
    with rec [of f] show ?thesis
      by (intro I_recorded_update [OF assms(1) Remove(1), where p' = "AtPut f"]) auto
  next
    case (Put f)
    then show ?thesis
      by (intro I_recorded_update [OF assms(1) Put(1), where p' = AtGet]) auto
  qed
next
  case Reporter
  with assms(3) have st: "reportProgress_step E cfg s = Some s'" by (simp add: step_def)
  from reportProgress_step_frame [OF st] assms(1) show ?thesis by (simp add: I_recorded_def)
qed

subsection \<open>The completion queue\<close>

lemma sentinel_is_last:
  assumes "map Some xs @ None # q = map Some ys @ zs" and "zs = [] \<or> zs = [None]"
  shows "zs = [None] \<and> xs = ys \<and> q = []"
  using assms
proof (induction xs arbitrary: ys)
  case Nil
  then show ?case by (cases ys) auto
next
  case (Cons x xs)
  then show ?case by (cases ys) auto
qed

lemma find_step_sentinel_put:
  assumes "find_step s = Some s'" and "orch s \<noteq> O_PutSentinel"
  shows "sentinel_put (orch s') = sentinel_put (orch s)"
  using assms by (cases "orch s") (auto simp: find_step_def split: if_splits)

lemma I_writer_step:
  assumes "I_writer cfg s" and "I_orch s" and "I_budget cfg s" and "step E cfg a s = Some s'"
  shows "I_writer cfg s'"
proof (cases a)
  case Orchestrator
  with assms(4) have st: "find_step s = Some s'" by (simp add: step_def)
  note fr = find_step_frame [OF st]
  show ?thesis
  proof (cases "orch s = O_PutSentinel")
    case True
    with st have s': "s' = s\<lparr>writerQueue := writerQueue s @ [None], orch := O_JoinWriter\<rparr>"
      by (simp add: find_step_def)
    from assms(1) True have "\<not> reporter_past_loop (writeProc s)"
      by (auto simp: I_writer_def)
    with assms(1) True s' show ?thesis
      by (auto simp: I_writer_def sentinel_pending_def)
  next
    case False
    with fr(8) have wq: "writerQueue s' = writerQueue s" by auto
    have sp: "sentinel_put (orch s') = sentinel_put (orch s)"
      by (rule find_step_sentinel_put [OF st False])
    from fr(9) show ?thesis
    proof
      assume "writeProc s' = writeProc s"
      with assms(1) wq sp fr(2) show ?thesis
        by (auto simp: I_writer_def sentinel_pending_def)
    next
      assume "orch s = O_StartWriter \<and> writeProc s' = R_Init"
      moreover from this assms(2) have "writeProc s = R_NotStarted"
        by (simp add: I_orch_def)
      ultimately show ?thesis
        using assms(1) wq sp fr(2)
        by (auto simp: I_writer_def sentinel_pending_def reporter_past_loop_def)
    qed
  qed
next
  case (Worker i)
  with assms(4) have st: "processBin_step E cfg i s = Some s'" by (simp add: step_def)
  have nsp: "\<not> sentinel_put (orch s)"
    by (rule worker_step_not_joined [OF assms(2) st])
  with assms(1) have npl: "\<not> reporter_past_loop (writeProc s)"
    by (auto simp: I_writer_def)
  from st assms(1) nsp npl show ?thesis
    by (cases rule: processBin_step_cases)
      (auto simp: I_writer_def sentinel_pending_def)
next
  case Reporter
  with assms(4) have st: "reportProgress_step E cfg s = Some s'" by (simp add: step_def)
  from assms(3) have ne: "binFiles cfg \<noteq> []" by (simp add: I_budget_def)
  from st ne show ?thesis
  proof (cases rule: reportProgress_step_cases)
    case Init
    with assms(1) show ?thesis
      by (auto simp: I_writer_def sentinel_pending_def reporter_past_loop_def)
  next
    case (GetSome n b q)
    with assms(1) show ?thesis
      by (auto simp: I_writer_def sentinel_pending_def reporter_past_loop_def)
  next
    case (GetNone n q)
    from assms(1) GetNone(1,2)
    have eq: "map Some (reported (trace s)) @ None # q =
        map Some (put_items (trace s)) @ (if sentinel_pending s then [None] else [])"
      by (simp add: I_writer_def)
    have "(if sentinel_pending s then [None] else []) = [] \<or>
          (if sentinel_pending s then [None] else []) = [None :: string option]"
      by simp
    from sentinel_is_last [OF eq this]
    have "sentinel_pending s" "reported (trace s) = put_items (trace s)" "q = []"
      by (auto split: if_splits)
    with assms(1) GetNone show ?thesis
      by (auto simp: I_writer_def sentinel_pending_def reporter_past_loop_def)
  next
    case Final
    with assms(1) show ?thesis
      by (auto simp: I_writer_def sentinel_pending_def reporter_past_loop_def)
  qed
qed

subsection \<open>What the reporter has written\<close>

lemma I_stderr_step:
  assumes "I_stderr E cfg s" and "I_writer cfg s" and "I_orch s" and "I_budget cfg s"
    and "step E cfg a s = Some s'"
  shows "I_stderr E cfg s'"
proof (cases a)
  case Orchestrator
  with assms(5) have st: "find_step s = Some s'" by (simp add: step_def)
  note fr = find_step_frame [OF st]
  from fr(9) show ?thesis
  proof
    assume "writeProc s' = writeProc s"
    with assms(1) fr show ?thesis by (simp add: I_stderr_def)
  next
    assume "orch s = O_StartWriter \<and> writeProc s' = R_Init"
    moreover from this assms(3) have "writeProc s = R_NotStarted"
      by (simp add: I_orch_def)
    ultimately show ?thesis
      using assms(1) fr by (simp add: I_stderr_def expected_stderr_def)
  qed
next
  case (Worker i)
  with assms(5) have st: "processBin_step E cfg i s = Some s'" by (simp add: step_def)
  from processBin_step_frame [OF st] assms(1) show ?thesis by (simp add: I_stderr_def)
next
  case Reporter
  with assms(5) have st: "reportProgress_step E cfg s = Some s'" by (simp add: step_def)
  from assms(4) have ne: "binFiles cfg \<noteq> []" by (simp add: I_budget_def)
  from st ne show ?thesis
  proof (cases rule: reportProgress_step_cases)
    case Init
    with assms(1,2) show ?thesis
      by (auto simp: I_stderr_def I_writer_def expected_stderr_def)
  next
    case (GetSome n b q)
    with assms(1,2) show ?thesis
      by (auto simp: I_stderr_def I_writer_def expected_stderr_def)
  next
    case (GetNone n q)
    with assms(1) show ?thesis
      by (auto simp: I_stderr_def expected_stderr_def)
  next
    case Final
    with assms(1) show ?thesis
      by (auto simp: I_stderr_def expected_stderr_def)
  qed
qed

subsection \<open>The arguments of every profile search\<close>

lemma I_calls_step:
  assumes "I_calls cfg s" and "step E cfg a s = Some s'"
  shows "I_calls cfg s'"
proof (cases a)
  case Orchestrator
  with assms(2) have st: "find_step s = Some s'" by (simp add: step_def)
  from find_step_frame [OF st] assms(1) show ?thesis by (simp add: I_calls_def)
next
  case (Worker i)
  with assms(2) have st: "processBin_step E cfg i s = Some s'" by (simp add: step_def)
  from st assms(1) show ?thesis
    by (cases rule: processBin_step_cases)
      (auto simp: I_calls_def search_ok_def search_call_def)
next
  case Reporter
  with assms(2) have st: "reportProgress_step E cfg s = Some s'" by (simp add: step_def)
  from st assms(1) show ?thesis
    by (auto simp: I_calls_def search_ok_def reportProgress_step_def write_status_def
        split: reporter.splits list.splits option.splits sum.splits if_splits)
qed

subsection \<open>All invariants together\<close>

lemma inv_step:
  assumes "inv E cfg s" and "step E cfg a s = Some s'"
  shows "inv E cfg s'"
proof -
  from assms(1) have i: "I_orch s" "I_budget cfg s" "I_fifo cfg s" "I_sentinels s" "I_exited s"
    "I_count s" "I_dom E s" "I_writer cfg s" "I_stderr E cfg s" "I_calls cfg s" "I_nones s"
    "I_recorded E s"
    by (simp_all add: inv_def)
  have "I_orch s'"
    using assms(2) i(1) I_orch_find_step [of s s'] I_orch_processBin_step [of s E cfg _ s']
      I_orch_reportProgress_step [of s E cfg s']
    by (cases a) (auto simp: step_def)
  moreover have "I_budget cfg s'" by (rule I_budget_step [OF i(2) assms(2)])
  moreover have "I_fifo cfg s'" by (rule I_fifo_step [OF i(3) assms(2)])
  moreover have "I_sentinels s'" by (rule I_sentinels_step [OF i(4) i(1) assms(2)])
  moreover have "I_exited s'" by (rule I_exited_step [OF i(5) i(1) assms(2)])
  moreover have "I_count s'" by (rule I_count_step [OF i(6) i(1) assms(2)])
  moreover have "I_dom E s'" by (rule I_dom_step [OF i(7) i(1) assms(2)])
  moreover have "I_writer cfg s'" by (rule I_writer_step [OF i(8) i(1) i(2) assms(2)])
  moreover have "I_stderr E cfg s'" by (rule I_stderr_step [OF i(9) i(8) i(1) i(2) assms(2)])
  moreover have "I_calls cfg s'" by (rule I_calls_step [OF i(10) assms(2)])
  moreover have "I_nones s'" by (rule I_nones_step [OF i(11) i(1) assms(2)])
  moreover have "I_recorded E s'" by (rule I_recorded_step [OF i(12) i(1) assms(2)])
  ultimately show ?thesis by (simp add: inv_def)
qed

lemma inv_exec:
  "inv E cfg s \<Longrightarrow> exec E cfg sched s = Some s' \<Longrightarrow> inv E cfg s'"
proof (induction sched arbitrary: s)
  case Nil
  then show ?case by simp
next
  case (Cons a sched)
  then show ?case by (auto split: option.splits dest: inv_step)
qed

lemma find_init_Inr:
  assumes "find_init cfg w = Inr s0"
  shows "binFiles cfg \<noteq> []"
    and "s0 = \<lparr>threadsPerSearch = max 1 (totalThreads cfg div int (length (binFiles cfg))),
               workerQueue = binFiles cfg @ replicate (nat (totalThreads cfg)) None,
               writerQueue = [], binIdToModels = Map.empty,
               calcProc = replicate (nat (totalThreads cfg)) NotStarted,
               writeProc = R_NotStarted, orch = O_StartWriter, world = w, stderr = [],
               trace = []\<rparr>"
  using assms by (auto simp: find_init_def threadBudget_def split: if_splits)

lemma inv_init:
  assumes "find_init cfg w = Inr s0"
  shows "inv E cfg s0"
proof -
  note s0 = find_init_Inr [OF assms]
  have "sum_list (map live (replicate n NotStarted)) = n" for n
    by (induction n) simp_all
  moreover have "sum_list (map holds_job (replicate n NotStarted)) = 0" for n
    by (induction n) simp_all
  moreover have "sum_list (map exited01 (replicate n NotStarted)) = 0" for n
    by (induction n) simp_all
  ultimately show ?thesis
    using s0(1)
    by (simp add: s0(2) inv_def I_orch_def I_budget_def I_fifo_def I_sentinels_def I_exited_def
        I_count_def I_dom_def I_writer_def I_stderr_def I_calls_def I_nones_def I_recorded_def
        sentinel_pending_def
        expected_stderr_def reporter_past_loop_def)
qed

lemma inv_run:
  "find_init cfg w = Inr s0 \<Longrightarrow> exec E cfg sched s0 = Some s \<Longrightarrow> inv E cfg s"
  by (rule inv_exec [OF inv_init])

section \<open>Termination and absence of deadlock\<close>

lemma nth_le_sum_list:
  "i < length xs \<Longrightarrow> f (xs ! i) \<le> (sum_list (map f xs) :: nat)"
proof (induction xs arbitrary: i)
  case Nil
  then show ?case by simp
next
  case (Cons x xs)
  then show ?case by (cases i) (auto intro: trans_le_add2)
qed

lemma find_step_measure:
  assumes "I_orch s" and st: "find_step s = Some s'"
  shows "find_measure s' < find_measure s"
proof -
  note fr = find_step_frame [OF st]
  have sum: "sum_list (map worker_weight (calcProc s')) = sum_list (map worker_weight (calcProc s))"
    by (rule find_step_sum [OF assms]) simp
  have "orch_weight (length (calcProc s)) (orch s') + reporter_weight (writeProc s') +
          length (writerQueue s')
        < orch_weight (length (calcProc s)) (orch s) + reporter_weight (writeProc s) +
          length (writerQueue s)"
  proof (cases "orch s")
    case O_StartWriter
    moreover from this assms(1) have "writeProc s = R_NotStarted" by (simp add: I_orch_def)
    ultimately show ?thesis
      using st by (auto simp: find_step_def orch_weight_def reporter_weight_def)
  qed (use st in \<open>auto simp: find_step_def orch_weight_def split: if_splits\<close>)
  with sum fr(1,10) show ?thesis by (simp add: find_measure_def)
qed

lemma processBin_step_measure:
  assumes st: "processBin_step E cfg i s = Some s'"
  shows "find_measure s' < find_measure s"
  using st
proof (cases rule: processBin_step_cases)
  case (Get x q)
  with sum_list_map_update [OF Get(1), of worker_weight
      "case x of None \<Rightarrow> Exited | Some binFile \<Rightarrow> AtMkdir binFile"]
  show ?thesis by (cases x) (auto simp: find_measure_def)
next
  case (Raise c e)
  with sum_list_map_update [OF Raise(1), of worker_weight "Raised e"]
  show ?thesis by (auto simp: find_measure_def)
next
  case (Mkdir f w)
  with sum_list_map_update [OF Mkdir(1), of worker_weight "AtProdigal f"]
  show ?thesis by (auto simp: find_measure_def)
next
  case (Skip f)
  with sum_list_map_update [OF Skip(1), of worker_weight "AtExtract f"]
  show ?thesis by (auto simp: find_measure_def)
next
  case (Prodigal f w)
  with sum_list_map_update [OF Prodigal(1), of worker_weight "AtExtract f"]
  show ?thesis by (auto simp: find_measure_def)
next
  case (Extract f h w)
  with sum_list_map_update [OF Extract(1), of worker_weight "AtParse f h"]
  show ?thesis by (auto simp: find_measure_def)
next
  case (Parse f h m)
  with sum_list_map_update [OF Parse(1), of worker_weight "AtSearch f h"]
  show ?thesis by (auto simp: find_measure_def)
next
  case (Search f h w)
  with sum_list_map_update [OF Search(1), of worker_weight "AtRemove f h"]
  show ?thesis by (auto simp: find_measure_def)
next
  case (Remove f h w)
  with sum_list_map_update [OF Remove(1), of worker_weight "AtPut f"]
  show ?thesis by (auto simp: find_measure_def)
next
  case (Put f)
  with sum_list_map_update [OF Put(1), of worker_weight AtGet]
  show ?thesis by (auto simp: find_measure_def)
qed

lemma reportProgress_step_measure:
  assumes st: "reportProgress_step E cfg s = Some s'"
  shows "find_measure s' < find_measure s"
  using st
  by (auto simp: reportProgress_step_def write_status_def find_measure_def reporter_weight_def
      split: reporter.splits list.splits option.splits sum.splits if_splits)

lemma step_measure:
  assumes "I_orch s" and "step E cfg a s = Some s'"
  shows "find_measure s' < find_measure s"
  using assms find_step_measure [of s s'] processBin_step_measure [of E cfg _ s s']
    reportProgress_step_measure [of E cfg s s']
  by (cases a) (auto simp: step_def)

lemma exec_bounded:
  "inv E cfg s \<Longrightarrow> exec E cfg sched s = Some s' \<Longrightarrow>
   length sched + find_measure s' \<le> find_measure s"
proof (induction sched arbitrary: s)
  case Nil
  then show ?case by simp
next
  case (Cons a sched)
  from Cons.prems(2) obtain s1 where s1: "step E cfg a s = Some s1"
    "exec E cfg sched s1 = Some s'"
    by (auto split: option.splits)
  from Cons.prems(1) have "I_orch s" by (simp add: inv_def)
  from step_measure [OF this s1(1)] Cons.IH [OF inv_step [OF Cons.prems(1) s1(1)] s1(2)]
  show ?case by simp
qed

text \<open>A started worker that has not ended can always take a step: its \<^verbatim>\<open>get\<close> never blocks.\<close>

lemma get_never_blocks:
  assumes "I_sentinels s" and "i < length (calcProc s)" and "\<not> finished (calcProc s ! i)"
  shows "workerQueue s \<noteq> []"
proof -
  from assms(3) have "live (calcProc s ! i) = 1" by (simp add: live_def)
  with nth_le_sum_list [OF assms(2), of live] assms(1)
  have "1 \<le> length (filter (\<lambda>x. x = None) (workerQueue s))"
    by (simp add: I_sentinels_def)
  then show ?thesis by auto
qed

lemma worker_enabled:
  assumes "I_sentinels s" and "i < length (calcProc s)" and "\<not> finished (calcProc s ! i)"
    and "calcProc s ! i \<noteq> NotStarted"
  shows "\<exists>s'. processBin_step E cfg i s = Some s'"
proof (cases "calcProc s ! i")
  case AtGet
  with get_never_blocks [OF assms(1-3)] assms(2) show ?thesis
    by (auto simp: processBin_step_def split: list.splits)
next
  case (AtExtract f)
  with assms(2) show ?thesis
    by (auto simp: processBin_step_def split: sum.splits prod.splits)
next
  case (AtParse f h)
  with assms(2) show ?thesis
    by (auto simp: processBin_step_def split: sum.splits)
qed (use assms in \<open>auto simp: processBin_step_def\<close>)

lemma reporter_enabled:
  assumes "I_writer cfg s" and "I_orch s" and "orch s = O_JoinWriter"
    and "\<not> reporter_joinable (writeProc s)"
  shows "\<exists>s'. reportProgress_step E cfg s = Some s'"
proof (cases "writeProc s")
  case R_NotStarted
  with assms(2,3) show ?thesis by (simp add: I_orch_def)
next
  case R_Init
  then show ?thesis by (simp add: reportProgress_step_def)
next
  case (R_Loop n)
  with assms(1,3) have "map Some (reported (trace s)) @ writerQueue s =
      map Some (put_items (trace s)) @ [None]"
    by (simp add: I_writer_def sentinel_pending_def reporter_past_loop_def)
  then have "None \<in> set (map Some (reported (trace s)) @ writerQueue s)" by simp
  then have "writerQueue s \<noteq> []" by auto
  with R_Loop show ?thesis
    by (auto simp: reportProgress_step_def split: list.splits option.splits)
next
  case R_Final
  then show ?thesis by (simp add: reportProgress_step_def)
next
  case R_Exited
  with assms(4) show ?thesis by (simp add: reporter_joinable_def)
next
  case (R_Raised e)
  with assms(4) show ?thesis by (simp add: reporter_joinable_def)
qed

lemma stuck_returned:
  assumes "inv E cfg s" and "stuck E cfg s"
  shows "\<exists>d. orch s = O_Returned d"
proof (cases "orch s")
  case (O_Join k)
  from assms(1) have i: "I_orch s" "I_sentinels s" by (simp_all add: inv_def)
  from assms(2) O_Join have k: "k < length (calcProc s)" "\<not> finished (calcProc s ! k)"
    by (auto simp: stuck_def find_step_def split: if_splits)
  with i(1) O_Join have "calcProc s ! k \<noteq> NotStarted" by (simp add: I_orch_def)
  from worker_enabled [OF i(2) k this, of E cfg] assms(2) k(1) show ?thesis
    by (auto simp: stuck_def list_all_iff)
next
  case O_JoinWriter
  from assms(1) have i: "I_orch s" "I_writer cfg s" by (simp_all add: inv_def)
  from assms(2) O_JoinWriter have "\<not> reporter_joinable (writeProc s)"
    by (auto simp: stuck_def find_step_def split: if_splits)
  from reporter_enabled [OF i(2) i(1) O_JoinWriter this, of E] assms(2) show ?thesis
    by (auto simp: stuck_def)
qed (use assms(2) in \<open>auto simp: stuck_def find_step_def split: if_splits\<close>)

lemma stuck_no_step:
  "stuck E cfg s \<Longrightarrow> step E cfg a s = None"
proof (cases a)
  case (Worker i)
  assume "stuck E cfg s"
  then show ?thesis
    using Worker by (cases "i < length (calcProc s)")
      (auto simp: stuck_def step_def list_all_iff processBin_step_def)
qed (auto simp: stuck_def step_def)

section \<open>Facts about whole runs\<close>

lemma list_all_eq_replicate:
  "list_all (\<lambda>p. p = c) xs \<Longrightarrow> xs = replicate (length xs) c"
  by (induction xs) auto

lemma all_exited_sums:
  assumes "all_exited s"
  shows "sum_list (map exited01 (calcProc s)) = length (calcProc s)"
    and "sum_list (map holds_job (calcProc s)) = 0"
    and "\<And>i f. i < length (calcProc s) \<Longrightarrow> \<not> pre_record f (calcProc s ! i)"
proof -
  from assms have eq: "calcProc s = replicate (length (calcProc s)) Exited"
    unfolding all_exited_def by (rule list_all_eq_replicate)
  have "sum_list (map exited01 (replicate n Exited)) = n" for n
    by (induction n) simp_all
  with eq show "sum_list (map exited01 (calcProc s)) = length (calcProc s)" by metis
  have "sum_list (map holds_job (replicate n Exited)) = 0" for n
    by (induction n) simp_all
  with eq show "sum_list (map holds_job (calcProc s)) = 0" by metis
  fix i f assume "i < length (calcProc s)"
  with assms have "calcProc s ! i = Exited"
    by (simp add: all_exited_def list_all_length)
  then show "\<not> pre_record f (calcProc s ! i)" by simp
qed

lemma filter_None_nil: "None \<notin> set xs \<Longrightarrow> filter (\<lambda>x. x = None) xs = []"
proof (induction xs)
  case Nil
  then show ?case by simp
next
  case (Cons a xs)
  then show ?case by (cases a) auto
qed

lemma filter_not_None_id: "None \<notin> set xs \<Longrightarrow> filter (\<lambda>x. x \<noteq> None) xs = xs"
proof (induction xs)
  case Nil
  then show ?case by simp
next
  case (Cons a xs)
  then show ?case by (cases a) auto
qed

lemma replicate_numeral: "replicate (numeral k) x = x # replicate (pred_numeral k) x"
  by (simp add: numeral_eq_Suc)

lemma queue_drained:
  assumes fifo: "got @ wq = jobs @ replicate n None" and "None \<notin> set jobs" and "1 \<le> n"
    and cnt: "length (filter (\<lambda>x. x = None) got) = n"
  shows "wq = []"
proof (rule ccontr)
  assume ne: "wq \<noteq> []"
  from assms(2) have "filter (\<lambda>x. x = None) jobs = []"
    by (rule filter_None_nil)
  then have "length (filter (\<lambda>x. x = None) (jobs @ replicate n None)) = n" by simp
  with fifo [symmetric] cnt have "filter (\<lambda>x. x = None) wq = []" by simp
  then have no: "None \<notin> set wq" by (auto simp: filter_empty_conv)
  from ne have "last wq = last (got @ wq)" by simp
  also have "\<dots> = last (jobs @ replicate n None)" by (simp add: fifo)
  also from assms(3) have "\<dots> = None" by (cases n) simp_all
  finally have "None \<in> set wq" using ne last_in_set by metis
  with no show False by contradiction
qed

lemma normal_run_drained:
  assumes "inv E cfg s" and normal: "all_exited s"
    and jobs: "None \<notin> set (binFiles cfg)" and workers: "1 \<le> totalThreads cfg"
  shows "workerQueue s = []"
    and "got_items (trace s) = binFiles cfg @ replicate (nat (totalThreads cfg)) None"
    and "length (put_items (trace s)) = length (binFiles cfg)"
proof -
  from assms(1) have i: "I_budget cfg s" "I_fifo cfg s" "I_nones s" "I_count s"
    by (simp_all add: inv_def)
  from i(1) have len: "length (calcProc s) = nat (totalThreads cfg)" by (simp add: I_budget_def)
  from i(2) len have fifo: "got_items (trace s) @ workerQueue s =
      binFiles cfg @ replicate (nat (totalThreads cfg)) None"
    by (simp add: I_fifo_def)
  from i(3) all_exited_sums(1) [OF normal] len
  have cnt: "length (filter (\<lambda>x. x = None) (got_items (trace s))) = nat (totalThreads cfg)"
    by (simp add: I_nones_def)
  from workers have "1 \<le> nat (totalThreads cfg)" by simp
  from queue_drained [OF fifo jobs this cnt] show wq: "workerQueue s = []" .
  with fifo show got: "got_items (trace s) =
      binFiles cfg @ replicate (nat (totalThreads cfg)) None"
    by simp
  from jobs have "filter (\<lambda>x. x \<noteq> None) (binFiles cfg) = binFiles cfg"
    by (rule filter_not_None_id)
  with i(4) all_exited_sums(2) [OF normal] got
  show "length (put_items (trace s)) = length (binFiles cfg)"
    by (simp add: I_count_def)
qed

lemma not_stuck_step:
  assumes "\<not> stuck E cfg s"
  shows "\<exists>a s1. step E cfg a s = Some s1"
proof -
  from assms consider "find_step s \<noteq> None" | "reportProgress_step E cfg s \<noteq> None"
    | i where "processBin_step E cfg i s \<noteq> None"
    by (auto simp: stuck_def list_all_iff)
  then show ?thesis
  proof cases
    case 1
    then obtain s1 where "step E cfg Orchestrator s = Some s1" by (auto simp: step_def)
    then show ?thesis by blast
  next
    case 2
    then obtain s1 where "step E cfg Reporter s = Some s1" by (auto simp: step_def)
    then show ?thesis by blast
  next
    case (3 i)
    then obtain s1 where "step E cfg (Worker i) s = Some s1" by (auto simp: step_def)
    then show ?thesis by blast
  qed
qed

text \<open>Every run can be continued until nothing can move; by then \<^verbatim>\<open>find\<close> has returned.\<close>

lemma run_to_completion:
  "inv E cfg s \<Longrightarrow> \<exists>sched s'. exec E cfg sched s = Some s' \<and> stuck E cfg s'"
proof (induction "find_measure s" arbitrary: s rule: less_induct)
  case less
  show ?case
  proof (cases "stuck E cfg s")
    case True
    then have "exec E cfg [] s = Some s \<and> stuck E cfg s" by simp
    then show ?thesis by blast
  next
    case False
    from not_stuck_step [OF this] obtain a s1 where s1: "step E cfg a s = Some s1" by blast
    from less.prems have "I_orch s" by (simp add: inv_def)
    from step_measure [OF this s1] inv_step [OF less.prems s1] less.hyps [of s1]
    obtain sched s' where "exec E cfg sched s1 = Some s'" "stuck E cfg s'" by blast
    with s1 have "exec E cfg (a # sched) s = Some s' \<and> stuck E cfg s'" by simp
    then show ?thesis by blast
  qed
qed



lemma joined_all_finished:
  assumes "I_orch s" and "sentinel_put (orch s) \<or> orch s = O_PutSentinel"
  shows "all_finished s"
  using assms by (cases "orch s") (auto simp: I_orch_def all_finished_def list_all_length)

lemma stuck_workers_done:
  assumes "inv E cfg s" and "stuck E cfg s" and "i < length (calcProc s)"
  shows "calcProc s ! i = Exited \<and> WorkerGet i None \<in> set (trace s) \<or>
         (\<exists>e. calcProc s ! i = Raised e)"
proof -
  from stuck_returned [OF assms(1,2)] obtain d where "orch s = O_Returned d" by blast
  moreover from assms(1) have "I_orch s" "I_exited s" by (simp_all add: inv_def)
  ultimately have "finished (calcProc s ! i)" "calcProc s ! i = Exited \<longrightarrow>
      WorkerGet i None \<in> set (trace s)"
    using assms(3) by (auto simp: I_orch_def I_exited_def)
  then show ?thesis by (cases "calcProc s ! i") auto
qed


section \<open>One profile search per bin\<close>

lemma before_search_simps [simp]:
  "before_search NotStarted = 0" "before_search AtGet = 0" "before_search (AtMkdir f) = 1"
  "before_search (AtProdigal f) = 1" "before_search (AtExtract f) = 1"
  "before_search (AtParse f h) = 1" "before_search (AtSearch f h) = 1"
  "before_search (AtRemove f h) = 0" "before_search (AtPut f) = 0"
  "before_search Exited = 0" "before_search (Raised e) = 0"
  by (simp_all add: before_search_def)

lemma after_search_simps [simp]:
  "after_search NotStarted = 0" "after_search AtGet = 0" "after_search (AtMkdir f) = 0"
  "after_search (AtProdigal f) = 0" "after_search (AtExtract f) = 0"
  "after_search (AtParse f h) = 0" "after_search (AtSearch f h) = 0"
  "after_search (AtRemove f h) = 1" "after_search (AtPut f) = 1"
  "after_search Exited = 0" "after_search (Raised e) = 0"
  by (simp_all add: after_search_def)

lemma search_count_append [simp]:
  "search_count (tr @ tr') = search_count tr + search_count tr'"
  by (simp add: search_count_def)

lemma search_count_single [simp]:
  "search_count [WorkerGet i x] = 0" "search_count [WorkerPut i b] = 0"
  "search_count [ReporterGet x] = 0"
  "search_count [WorkerCall i (MakeSurePathExists d)] = 0"
  "search_count [WorkerCall i (ProdigalRun d f b')] = 0"
  "search_count [WorkerCall i (CreateHmmModelFile n b m)] = 0"
  "search_count [WorkerCall i (HmmModelParser h)] = 0"
  "search_count [WorkerCall i (OsRemove h)] = 0"
  "search_count [WorkerCall i (HmmerSearch h a tb fl p k)] = 1"
  by (simp_all add: search_count_def is_search_ev_def)







section \<open>The claims\<close>

declare str_nat.simps [simp del]

lemmas run_defs =
  step_def find_step_def processBin_step_def after_call_def reportProgress_step_def
  write_status_def statusStr_def find_init_def threadBudget_def finished_def
  reporter_joinable_def info_enabled_def logging_INFO_def binId_of_def binDir_of_def
  search_call_def search_params_def keepAlignStr_def demo_env_def demo_cfg_def

lemmas eval_defs = run_defs replicate_numeral str_nat.simps stuck_def all_exited_def
  all_finished_def demo_sched2_def demo_sched1_def new_events_def

lemma new_events_append [simp]:
  "new_events s (s\<lparr>trace := trace s @ evs\<rparr>) = evs"
  by (simp add: new_events_def)

text \<open>A worker that holds a bin file is never blocked: its next statement can always run.\<close>

lemma holding_worker_enabled:
  assumes "j < length (calcProc t)" and "job_of (calcProc t ! j) = Some g"
  shows "\<exists>t'. step E cfg (Worker j) t = Some t'"
  using assms
  by (cases "calcProc t ! j")
    (auto simp: step_def processBin_step_def split: sum.splits prod.splits)

subsection \<open>C2: the thread budget\<close>

lemma exec_threadsPerSearch:
  "exec E cfg sched s = Some s' \<Longrightarrow> threadsPerSearch s' = threadsPerSearch s"
proof (induction sched arbitrary: s)
  case Nil
  then show ?case by simp
next
  case (Cons a sched)
  from Cons.prems obtain s1 where s1: "step E cfg a s = Some s1"
    "exec E cfg sched s1 = Some s'"
    by (auto split: option.splits)
  have "threadsPerSearch s1 = threadsPerSearch s"
    using s1(1) processBin_step_frame(7) [of E cfg _ s s1]
      reportProgress_step_frame(5) [of E cfg s s1] find_step_frame(6) [of s s1]
    by (cases a) (auto simp: step_def)
  with Cons.IH [OF s1(2)] show ?case by simp
qed

text \<open>
  C2.  For every total thread count of at least one and every job count of at least one,
  \<^verbatim>\<open>find\<close> starts, the thread budget it computes on line 45 is the larger of one and the
  floor of the quotient of the two, and the budget is the same in every state of every run.
  The budget of 8 threads over 3 jobs is 2, of 2 over 5 is 1 and of 10 over 1 is 10.
\<close>

theorem thread_budget_fixed:
  assumes "1 \<le> totalThreads cfg" and "1 \<le> length (binFiles cfg)"
  shows "(\<exists>s0 :: ('w, 'm) state. find_init cfg w = Inr s0 \<and>
            threadsPerSearch s0 =
              spec_ThreadBudgetPlanner (totalThreads cfg) (length (binFiles cfg)) \<and>
            (\<forall>(E :: ('w, 'm) collaborators) sched s.
               exec E cfg sched s0 = Some s \<longrightarrow> threadsPerSearch s = threadsPerSearch s0)) \<and>
         threadBudget 8 3 = Inr 2 \<and> threadBudget 2 5 = Inr 1 \<and> threadBudget 10 1 = Inr 10"
proof -
  have fl: "\<lfloor>real_of_int (totalThreads cfg) / real (length (binFiles cfg))\<rfloor> =
      totalThreads cfg div int (length (binFiles cfg))"
    using floor_divide_of_int_eq [of "totalThreads cfg" "int (length (binFiles cfg))", where ?'a = real]
    by simp
  from assms(2) have "binFiles cfg \<noteq> []" by auto
  then obtain s0 :: "('w, 'm) state" where s0: "find_init cfg w = Inr s0"
    by (simp add: find_init_def threadBudget_def)
  from find_init_Inr(2) [OF s0] fl
  have eq: "threadsPerSearch s0 =
      spec_ThreadBudgetPlanner (totalThreads cfg) (length (binFiles cfg))"
    by (simp add: spec_ThreadBudgetPlanner_def)
  have fixed: "\<forall>(E :: ('w, 'm) collaborators) sched s.
      exec E cfg sched s0 = Some s \<longrightarrow> threadsPerSearch s = threadsPerSearch s0"
    using exec_threadsPerSearch by blast
  have "threadBudget 8 3 = Inr 2 \<and> threadBudget 2 5 = Inr 1 \<and> threadBudget 10 1 = Inr 10"
    by (simp add: threadBudget_def)
  with s0 eq fixed show ?thesis by blast
qed

theorem thread_budget_fixed_witness:
  "1 \<le> totalThreads (demo_cfg 8 [Some ''a.fa'', Some ''b.fa'', Some ''c.fa'']) \<and>
   1 \<le> length (binFiles (demo_cfg 8 [Some ''a.fa'', Some ''b.fa'', Some ''c.fa''])) \<and>
   (\<exists>s0 :: (string list, string) state.
      find_init (demo_cfg 8 [Some ''a.fa'', Some ''b.fa'', Some ''c.fa'']) [] = Inr s0 \<and>
      threadsPerSearch s0 = 2)"
proof -
  let ?cfg = "demo_cfg 8 [Some ''a.fa'', Some ''b.fa'', Some ''c.fa'']"
  have h: "1 \<le> totalThreads ?cfg" "1 \<le> length (binFiles ?cfg)"
    by (simp_all add: demo_cfg_def)
  have "spec_ThreadBudgetPlanner (totalThreads ?cfg) (length (binFiles ?cfg)) = 2"
    by (simp add: demo_cfg_def spec_ThreadBudgetPlanner_def)
  with thread_budget_fixed [OF h, of "[]", where ?'m = string] h show ?thesis
    by auto
qed

subsection \<open>C7: no jobs\<close>

text \<open>
  C7, as the code has it.  \<^verbatim>\<open>find\<close> does not validate the job count.  With no bin file the
  division of line 45 is attempted and raises \<^verbatim>\<open>ZeroDivisionError\<close>: that is the first
  statement, so no queue is created, no process is started and nothing is returned.  With
  at least one bin file line 45 never raises.
\<close>

theorem find_zero_jobs_counterexample:
  "(find_init (demo_cfg 8 []) [] :: error + (string list, string) state) =
     Inl ZeroDivisionError \<and>
   threadBudget (totalThreads (demo_cfg 8 [])) (length (binFiles (demo_cfg 8 []))) =
     Inl ZeroDivisionError"
  by (simp add: find_init_def threadBudget_def demo_cfg_def)

theorem find_zero_jobs:
  "((find_init cfg w :: error + ('w, 'm) state) = Inl ZeroDivisionError) = (binFiles cfg = [])"
  by (simp add: find_init_def threadBudget_def)

subsection \<open>C1: the keys of the returned mapping\<close>

text \<open>
  C1.  Take any run of \<^verbatim>\<open>find\<close> over bin files none of which is \<^verbatim>\<open>None\<close>, with at least
  one worker, that has returned and in which no worker died (every worker exited through
  the sentinel branch).  Then the keys of the returned mapping are exactly the identifiers
  of the input bin files; the workers dequeued every queue entry exactly once, in queue
  order (so no bin was taken twice and none was skipped); and one completion was notified
  per bin.
\<close>

theorem find_result_keys:
  assumes init: "find_init cfg w = Inr s0" and run: "exec E cfg sched s0 = Some s"
    and ret: "orch s = O_Returned d" and normal: "all_exited s"
    and jobs: "None \<notin> set (binFiles cfg)" and workers: "1 \<le> totalThreads cfg"
  shows "dom d = binId_of E ` {f. Some f \<in> set (binFiles cfg)} \<and>
         got_items (trace s) = binFiles cfg @ replicate (nat (totalThreads cfg)) None \<and>
         length (put_items (trace s)) = length (binFiles cfg)"
proof -
  note inv = inv_run [OF init run]
  then have i: "I_orch s" "I_dom E s" by (simp_all add: inv_def)
  note dr = normal_run_drained [OF inv normal jobs workers]
  have some: "Some f \<in> set (got_items (trace s)) \<longleftrightarrow> Some f \<in> set (binFiles cfg)" for f
    by (auto simp: dr(2))
  from i(1) ret have d: "d = binIdToModels s" by (simp add: I_orch_def)
  have "dom d = binId_of E ` {f. Some f \<in> set (binFiles cfg)}"
  proof (intro set_eqI iffI)
    fix b assume "b \<in> dom d"
    with i(2) d some show "b \<in> binId_of E ` {f. Some f \<in> set (binFiles cfg)}"
      unfolding I_dom_def by blast
  next
    fix b assume "b \<in> binId_of E ` {f. Some f \<in> set (binFiles cfg)}"
    then obtain f where f: "Some f \<in> set (binFiles cfg)" "b = binId_of E f" by blast
    with some have "Some f \<in> set (got_items (trace s))" by simp
    with i(2) all_exited_sums(3) [OF normal] have "binId_of E f \<in> dom (binIdToModels s)"
      unfolding I_dom_def by blast
    with f d show "b \<in> dom d" by simp
  qed
  with dr show ?thesis by simp
qed

theorem find_result_keys_witness:
  "\<exists>s0 s d.
     find_init (demo_cfg 2 [Some ''a.fa'', Some ''b.fa'']) [] = Inr s0 \<and>
     exec (demo_env True) (demo_cfg 2 [Some ''a.fa'', Some ''b.fa'']) demo_sched2 s0 = Some s \<and>
     orch s = O_Returned d \<and> all_exited s \<and>
     None \<notin> set (binFiles (demo_cfg 2 [Some ''a.fa'', Some ''b.fa''])) \<and>
     1 \<le> totalThreads (demo_cfg 2 [Some ''a.fa'', Some ''b.fa'']) \<and>
     dom d = {''a'', ''b''} \<and> length (put_items (trace s)) = 2"
proof -
  let ?cfg = "demo_cfg 2 [Some ''a.fa'', Some ''b.fa'']"
  obtain s0 :: "(string list, string) state" where s0: "find_init ?cfg [] = Inr s0"
    by (simp add: find_init_def threadBudget_def demo_cfg_def)
  have "\<exists>s d. exec (demo_env True) ?cfg demo_sched2 s0 = Some s \<and> orch s = O_Returned d \<and>
      all_exited s"
    by (simp add: find_init_Inr(2) [OF s0] demo_sched2_def all_exited_def run_defs
        replicate_numeral str_nat.simps)
  then obtain s d where run: "exec (demo_env True) ?cfg demo_sched2 s0 = Some s"
    "orch s = O_Returned d" "all_exited s" by blast
  have h: "None \<notin> set (binFiles ?cfg)" "1 \<le> totalThreads ?cfg"
    by (simp_all add: demo_cfg_def)
  have "{f. Some f \<in> set (binFiles ?cfg)} = {''a.fa'', ''b.fa''}"
    by (auto simp: demo_cfg_def)
  then have "binId_of (demo_env True) ` {f. Some f \<in> set (binFiles ?cfg)} = {''a'', ''b''}"
    by (simp add: binId_of_def demo_env_def)
  moreover have "length (binFiles ?cfg) = 2" by (simp add: demo_cfg_def)
  ultimately have "dom d = {''a'', ''b''}" "length (put_items (trace s)) = 2"
    using find_result_keys [OF s0 run h] by simp_all
  with s0 run h show ?thesis by blast
qed

subsection \<open>C3: seeding of the worker queue\<close>

text \<open>
  C3.  When \<^verbatim>\<open>find\<close> starts, the worker queue holds the bin files in input order followed
  by one \<^verbatim>\<open>None\<close> per worker process created, and nothing else.  In every run from there:
  the run is finite; a worker at its \<^verbatim>\<open>get\<close> is never blocked by an empty queue; the run
  can be continued until no process can move; and when no process can move every worker
  has either dequeued a sentinel and exited, or died of an exception.
\<close>

theorem worker_queue_seeding:
  assumes init: "find_init cfg w = Inr s0"
  shows "workerQueue s0 = binFiles cfg @ replicate (length (calcProc s0)) None \<and>
         length (calcProc s0) = nat (totalThreads cfg) \<and>
         (\<forall>sched s. exec E cfg sched s0 = Some s \<longrightarrow>
            length sched \<le> find_measure s0 \<and>
            (\<forall>i < length (calcProc s). calcProc s ! i = AtGet \<longrightarrow>
               workerQueue s \<noteq> [] \<and> (\<exists>s'. step E cfg (Worker i) s = Some s')) \<and>
            (\<exists>sched' s'. exec E cfg sched' s = Some s' \<and> stuck E cfg s') \<and>
            (stuck E cfg s \<longrightarrow>
               (\<forall>i < length (calcProc s).
                  calcProc s ! i = Exited \<and> WorkerGet i None \<in> set (trace s) \<or>
                  (\<exists>e. calcProc s ! i = Raised e))))"
proof (intro conjI allI impI)
  show "workerQueue s0 = binFiles cfg @ replicate (length (calcProc s0)) None"
    and "length (calcProc s0) = nat (totalThreads cfg)"
    by (simp_all add: find_init_Inr(2) [OF init])
next
  fix sched s assume run: "exec E cfg sched s0 = Some s"
  note inv = inv_run [OF init run]
  from exec_bounded [OF inv_init [OF init] run] show "length sched \<le> find_measure s0"
    by simp
  from run_to_completion [OF inv]
  show "\<exists>sched' s'. exec E cfg sched' s = Some s' \<and> stuck E cfg s'" .
  {
    fix i assume i: "i < length (calcProc s)" "calcProc s ! i = AtGet"
    from inv have sen: "I_sentinels s" by (simp add: inv_def)
    from i show "workerQueue s \<noteq> []"
      by (intro get_never_blocks [OF sen, of i]) simp_all
    from i worker_enabled [OF sen, of i E cfg]
    show "\<exists>s'. step E cfg (Worker i) s = Some s'" by (simp add: step_def)
  }
  {
    fix i assume "stuck E cfg s" "i < length (calcProc s)"
    with inv show "calcProc s ! i = Exited \<and> WorkerGet i None \<in> set (trace s) \<or>
        (\<exists>e. calcProc s ! i = Raised e)"
      by (intro stuck_workers_done)
  }
qed

theorem worker_queue_seeding_witness:
  "\<exists>s0 s.
     find_init (demo_cfg 2 [Some ''a.fa'', Some ''b.fa'']) [] = Inr s0 \<and>
     workerQueue s0 = [Some ''a.fa'', Some ''b.fa'', None, None] \<and>
     exec (demo_env True) (demo_cfg 2 [Some ''a.fa'', Some ''b.fa'']) demo_sched2 s0 = Some s \<and>
     stuck (demo_env True) (demo_cfg 2 [Some ''a.fa'', Some ''b.fa'']) s \<and>
     calcProc s = [Exited, Exited] \<and>
     WorkerGet 0 None \<in> set (trace s) \<and> WorkerGet 1 None \<in> set (trace s)"
proof -
  let ?cfg = "demo_cfg 2 [Some ''a.fa'', Some ''b.fa'']"
  obtain s0 :: "(string list, string) state" where s0: "find_init ?cfg [] = Inr s0"
    by (simp add: find_init_def threadBudget_def demo_cfg_def)
  note th = worker_queue_seeding [OF s0, of "demo_env True"]
  have "\<exists>s. exec (demo_env True) ?cfg demo_sched2 s0 = Some s \<and>
      stuck (demo_env True) ?cfg s \<and> calcProc s = [Exited, Exited]"
    by (simp add: find_init_Inr(2) [OF s0] eval_defs)
  then obtain s where run: "exec (demo_env True) ?cfg demo_sched2 s0 = Some s"
    "stuck (demo_env True) ?cfg s" "calcProc s = [Exited, Exited]" by blast
  from th run(1,2) have "\<forall>i < length (calcProc s).
      calcProc s ! i = Exited \<and> WorkerGet i None \<in> set (trace s) \<or>
      (\<exists>e. calcProc s ! i = Raised e)"
    by blast
  with run(3) have "WorkerGet 0 None \<in> set (trace s)" "WorkerGet 1 None \<in> set (trace s)"
    by (auto simp: less_Suc_eq)
  moreover from th have "workerQueue s0 = [Some ''a.fa'', Some ''b.fa'', None, None]"
    by (simp add: demo_cfg_def replicate_numeral)
  ultimately show ?thesis using s0 run by blast
qed

subsection \<open>C4: the sentinel of the completion queue\<close>

text \<open>
  C4.  In every state of every run: when the orchestrator is about to enqueue the
  sentinel of the completion queue (line 70), every worker has ended, so no worker can
  enqueue anything later, and the queue holds no sentinel yet; when the queue holds a
  sentinel, that sentinel is its last entry and everything the workers ever notified is
  either already seen by the reporter or ahead of it in the queue; when the reporter has
  left its loop, it has seen every notification.  The run is finite and can be continued
  until no process can move, and by then the reporter has exited.
\<close>

theorem completion_sentinel_after_join:
  assumes init: "find_init cfg w = Inr s0" and run: "exec E cfg sched s0 = Some s"
  shows "(orch s = O_PutSentinel \<longrightarrow>
            all_finished s \<and> None \<notin> set (writerQueue s) \<and>
            (\<forall>i. processBin_step E cfg i s = None)) \<and>
         (None \<in> set (writerQueue s) \<longrightarrow>
            all_finished s \<and>
            map Some (reported (trace s)) @ writerQueue s =
              map Some (put_items (trace s)) @ [None]) \<and>
         (reporter_past_loop (writeProc s) \<longrightarrow>
            all_finished s \<and> reported (trace s) = put_items (trace s) \<and>
            writerQueue s = []) \<and>
         length sched \<le> find_measure s0 \<and>
         (\<exists>sched' s'. exec E cfg sched' s = Some s' \<and> stuck E cfg s') \<and>
         (stuck E cfg s \<longrightarrow> writeProc s = R_Exited)"
proof -
  note inv = inv_run [OF init run]
  then have i: "I_orch s" "I_writer cfg s" by (simp_all add: inv_def)
  from i(2) have eq: "map Some (reported (trace s)) @ writerQueue s =
      map Some (put_items (trace s)) @ (if sentinel_pending s then [None] else [])"
    by (simp add: I_writer_def)
  have no_sentinel: "None \<notin> set (writerQueue s)" if "\<not> sentinel_pending s"
  proof
    assume "None \<in> set (writerQueue s)"
    then have "None \<in> set (map Some (reported (trace s)) @ writerQueue s)" by simp
    with eq that show False by auto
  qed
  have c1: "all_finished s \<and> None \<notin> set (writerQueue s) \<and>
      (\<forall>i. processBin_step E cfg i s = None)" if "orch s = O_PutSentinel"
  proof -
    from that have fin: "all_finished s" by (intro joined_all_finished [OF i(1)]) simp
    moreover from that have "None \<notin> set (writerQueue s)"
      by (intro no_sentinel) (simp add: sentinel_pending_def)
    moreover have "processBin_step E cfg j s = None" for j
    proof (rule ccontr)
      assume "processBin_step E cfg j s \<noteq> None"
      then obtain s' where "processBin_step E cfg j s = Some s'" by auto
      from processBin_step_frame(1,2) [OF this] fin show False
        by (simp add: all_finished_def list_all_length)
    qed
    ultimately show ?thesis by blast
  qed
  have c2: "all_finished s \<and> map Some (reported (trace s)) @ writerQueue s =
      map Some (put_items (trace s)) @ [None]" if "None \<in> set (writerQueue s)"
  proof -
    from that no_sentinel have p: "sentinel_pending s" by blast
    then have "all_finished s"
      by (intro joined_all_finished [OF i(1)]) (simp add: sentinel_pending_def)
    with eq p show ?thesis by simp
  qed
  have c3: "all_finished s \<and> reported (trace s) = put_items (trace s) \<and> writerQueue s = []"
    if "reporter_past_loop (writeProc s)"
  proof -
    from that i(2) have sp: "sentinel_put (orch s)" "writerQueue s = []"
      by (simp_all add: I_writer_def)
    from sp(1) have "all_finished s" by (intro joined_all_finished [OF i(1)]) simp
    moreover from eq that sp(2) have "map Some (reported (trace s)) =
        map Some (put_items (trace s))"
      by (simp add: sentinel_pending_def)
    then have "reported (trace s) = put_items (trace s)"
      by (simp add: inj_map_eq_map)
    ultimately show ?thesis using sp(2) by simp
  qed
  have c6: "writeProc s = R_Exited" if "stuck E cfg s"
  proof -
    from stuck_returned [OF inv that] obtain d where "orch s = O_Returned d" by blast
    with i(1) have "reporter_joinable (writeProc s)" by (simp add: I_orch_def)
    with i(2) show ?thesis
      by (cases "writeProc s") (auto simp: reporter_joinable_def I_writer_def)
  qed
  from exec_bounded [OF inv_init [OF init] run] have "length sched \<le> find_measure s0"
    by simp
  with c1 c2 c3 c6 run_to_completion [OF inv] show ?thesis by blast
qed

theorem completion_sentinel_after_join_witness:
  "\<exists>s0 s1 s2 s3.
     find_init (demo_cfg 2 [Some ''a.fa'', Some ''b.fa'']) [] = Inr s0 \<and>
     exec (demo_env True) (demo_cfg 2 [Some ''a.fa'', Some ''b.fa''])
       (take 24 demo_sched2 @ [Orchestrator, Orchestrator, Orchestrator]) s0 = Some s1 \<and>
     orch s1 = O_PutSentinel \<and> calcProc s1 = [Exited, Exited] \<and>
     put_items (trace s1) = [''a'', ''b''] \<and> writerQueue s1 = [Some ''b''] \<and>
     exec (demo_env True) (demo_cfg 2 [Some ''a.fa'', Some ''b.fa''])
       (take 24 demo_sched2 @ [Orchestrator, Orchestrator, Orchestrator, Orchestrator]) s0 = Some s2 \<and>
     writerQueue s2 = [Some ''b'', None] \<and> reported (trace s2) = [''a''] \<and>
     put_items (trace s2) = [''a'', ''b''] \<and>
     exec (demo_env True) (demo_cfg 2 [Some ''a.fa'', Some ''b.fa'']) demo_sched2 s0 = Some s3 \<and>
     stuck (demo_env True) (demo_cfg 2 [Some ''a.fa'', Some ''b.fa'']) s3 \<and>
     writeProc s3 = R_Exited \<and> reported (trace s3) = [''a'', ''b''] \<and>
     put_items (trace s3) = [''a'', ''b'']"
proof -
  let ?cfg = "demo_cfg 2 [Some ''a.fa'', Some ''b.fa'']"
  obtain s0 :: "(string list, string) state" where s0: "find_init ?cfg [] = Inr s0"
    by (simp add: find_init_def threadBudget_def demo_cfg_def)
  have "\<exists>s. exec (demo_env True) ?cfg (take 24 demo_sched2 @ [Orchestrator, Orchestrator, Orchestrator]) s0 = Some s \<and>
      orch s = O_PutSentinel \<and> calcProc s = [Exited, Exited] \<and> writerQueue s = [Some ''b'']"
    by (simp add: find_init_Inr(2) [OF s0] eval_defs)
  then obtain s1 where s1: "exec (demo_env True) ?cfg (take 24 demo_sched2 @ [Orchestrator, Orchestrator, Orchestrator]) s0 = Some s1"
    "orch s1 = O_PutSentinel" "calcProc s1 = [Exited, Exited]" "writerQueue s1 = [Some ''b'']"
    by blast
  have "\<exists>s. exec (demo_env True) ?cfg (take 24 demo_sched2 @ [Orchestrator, Orchestrator, Orchestrator, Orchestrator]) s0 = Some s \<and>
      writerQueue s = [Some ''b'', None] \<and> reported (trace s) = [''a'']"
    by (simp add: find_init_Inr(2) [OF s0] eval_defs)
  then obtain s2 where s2: "exec (demo_env True) ?cfg (take 24 demo_sched2 @ [Orchestrator, Orchestrator, Orchestrator, Orchestrator]) s0 = Some s2"
    "writerQueue s2 = [Some ''b'', None]" "reported (trace s2) = [''a'']"
    by blast
  have "\<exists>s. exec (demo_env True) ?cfg demo_sched2 s0 = Some s \<and>
      stuck (demo_env True) ?cfg s \<and> put_items (trace s) = [''a'', ''b'']"
    by (simp add: find_init_Inr(2) [OF s0] eval_defs)
  then obtain s3 where s3: "exec (demo_env True) ?cfg demo_sched2 s0 = Some s3"
    "stuck (demo_env True) ?cfg s3" "put_items (trace s3) = [''a'', ''b'']"
    by blast
  from completion_sentinel_after_join [OF s0 s2(1)] s2(2,3)
  have "map Some (put_items (trace s2)) = map Some [''a'', ''b'']" by simp
  then have p2: "put_items (trace s2) = [''a'', ''b'']"
    by (simp only: inj_map_eq_map [OF inj_Some])
  from completion_sentinel_after_join [OF s0 s3(1)] s3(2)
  have e: "writeProc s3 = R_Exited" by blast
  then have "reporter_past_loop (writeProc s3)" by (simp add: reporter_past_loop_def)
  with completion_sentinel_after_join [OF s0 s3(1)] s3(3)
  have r: "reported (trace s3) = [''a'', ''b'']" by simp
  have "put_items (trace s1) = [''a'', ''b'']"
  proof -
    have "\<exists>s. exec (demo_env True) ?cfg (take 24 demo_sched2 @ [Orchestrator, Orchestrator, Orchestrator]) s0 = Some s \<and>
        put_items (trace s) = [''a'', ''b'']"
      by (simp add: find_init_Inr(2) [OF s0] eval_defs)
    with s1(1) show ?thesis by auto
  qed
  with s0 s1 s2 s3 e r p2 show ?thesis by blast
qed

subsection \<open>C10: the sentinel test\<close>

text \<open>
  C10.  A worker at its \<^verbatim>\<open>get\<close> takes the \<^verbatim>\<open>break\<close> branch exactly when the dequeued value
  is \<^verbatim>\<open>None\<close>, whatever put it there.  In a run over bin files none of which is \<^verbatim>\<open>None\<close>,
  the dequeued value is \<^verbatim>\<open>None\<close> exactly when all bin files have been dequeued before, that
  is, exactly on the seeded sentinels.  With a bin file equal to \<^verbatim>\<open>None\<close> a worker can
  stop early: for the input \<^verbatim>\<open>[None, 'b.fa']\<close> and one worker there is a complete run in
  which the worker exits on the first entry, \<^verbatim>\<open>'b.fa'\<close> stays in the queue and the returned
  mapping is empty.
\<close>

theorem sentinel_test:
  assumes init: "find_init cfg w = Inr s0" and run: "exec E cfg sched s0 = Some s"
    and i: "i < length (calcProc s)" and pc: "calcProc s ! i = AtGet"
    and wq: "workerQueue s = x # q"
  shows "(\<exists>s'. step E cfg (Worker i) s = Some s' \<and>
            (calcProc s' ! i = Exited) = (x = None) \<and>
            (\<forall>binFile. x = Some binFile \<longrightarrow> calcProc s' ! i = AtMkdir binFile) \<and>
            (None \<notin> set (binFiles cfg) \<longrightarrow>
               (x = None) = (length (binFiles cfg) \<le> length (got_items (trace s))))) \<and>
         (\<exists>t0 t d.
            find_init (demo_cfg 1 [None, Some ''b.fa'']) [] = Inr t0 \<and>
            exec (demo_env True) (demo_cfg 1 [None, Some ''b.fa'']) (demo_sched1 1 0) t0 =
              Some t \<and>
            orch t = O_Returned d \<and> calcProc t = [Exited] \<and>
            workerQueue t = [Some ''b.fa'', None] \<and> dom d = {} \<and> put_items (trace t) = [])"
proof -
  from inv_run [OF init run] have fifo: "I_fifo cfg s" by (simp add: inv_def)
  let ?s' = "s\<lparr>workerQueue := q,
       calcProc := (calcProc s)
         [i := (case x of None \<Rightarrow> Exited | Some binFile \<Rightarrow> AtMkdir binFile)],
       trace := trace s @ [WorkerGet i x]\<rparr>"
  have st: "step E cfg (Worker i) s = Some ?s'"
    using i pc wq by (simp add: step_def processBin_step_def)
  have br: "(calcProc ?s' ! i = Exited) = (x = None)"
    "\<forall>binFile. x = Some binFile \<longrightarrow> calcProc ?s' ! i = AtMkdir binFile"
    using i by (auto split: option.splits)
  have pos: "(x = None) = (length (binFiles cfg) \<le> length (got_items (trace s)))"
    if jobs: "None \<notin> set (binFiles cfg)"
  proof -
    from fifo wq have eq: "got_items (trace s) @ x # q =
        binFiles cfg @ replicate (length (calcProc s)) None"
      by (simp add: I_fifo_def)
    then have "x = (binFiles cfg @ replicate (length (calcProc s)) None) !
        length (got_items (trace s))"
      by (metis nth_append_length)
    moreover from eq have "length (got_items (trace s)) <
        length (binFiles cfg @ replicate (length (calcProc s)) None)"
      by (metis length_append length_Cons less_add_Suc1 add_Suc_right)
    ultimately show ?thesis
      using jobs by (auto simp: nth_append in_set_conv_nth)
  qed
  obtain t0 :: "(string list, string) state"
    where t0: "find_init (demo_cfg 1 [None, Some ''b.fa'']) [] = Inr t0"
    by (simp add: find_init_def threadBudget_def demo_cfg_def)
  have "\<exists>t d. exec (demo_env True) (demo_cfg 1 [None, Some ''b.fa'']) (demo_sched1 1 0) t0 =
        Some t \<and>
      orch t = O_Returned d \<and> calcProc t = [Exited] \<and>
      workerQueue t = [Some ''b.fa'', None] \<and> dom d = {} \<and> put_items (trace t) = []"
    by (simp add: find_init_Inr(2) [OF t0] eval_defs)
  with st br pos t0 show ?thesis by blast
qed

theorem sentinel_test_witness:
  "\<exists>s0 s s'.
     find_init (demo_cfg 1 [Some ''a.fa'']) [] = Inr s0 \<and>
     exec (demo_env True) (demo_cfg 1 [Some ''a.fa''])
       (take 12 (demo_sched1 9 1)) s0 = Some s \<and>
     0 < length (calcProc s) \<and> calcProc s ! 0 = AtGet \<and> workerQueue s = [None] \<and>
     None \<notin> set (binFiles (demo_cfg 1 [Some ''a.fa''])) \<and>
     step (demo_env True) (demo_cfg 1 [Some ''a.fa'']) (Worker 0) s = Some s' \<and>
     calcProc s' ! 0 = Exited \<and>
     length (binFiles (demo_cfg 1 [Some ''a.fa''])) \<le> length (got_items (trace s))"
proof -
  let ?cfg = "demo_cfg 1 [Some ''a.fa'']"
  obtain s0 :: "(string list, string) state" where s0: "find_init ?cfg [] = Inr s0"
    by (simp add: find_init_def threadBudget_def demo_cfg_def)
  have "\<exists>s. exec (demo_env True) ?cfg (take 12 (demo_sched1 9 1)) s0 = Some s \<and>
      0 < length (calcProc s) \<and> calcProc s ! 0 = AtGet \<and> workerQueue s = [None]"
    by (simp add: find_init_Inr(2) [OF s0] eval_defs)
  then obtain s where s: "exec (demo_env True) ?cfg (take 12 (demo_sched1 9 1)) s0 = Some s"
    "0 < length (calcProc s)" "calcProc s ! 0 = AtGet" "workerQueue s = [None]"
    by blast
  have j: "None \<notin> set (binFiles ?cfg)" by (simp add: demo_cfg_def)
  from sentinel_test [OF s0 s] j
  obtain s' where "step (demo_env True) ?cfg (Worker 0) s = Some s'"
    "calcProc s' ! 0 = Exited" "length (binFiles ?cfg) \<le> length (got_items (trace s))"
    by blast
  with s0 s j show ?thesis by blast
qed

subsection \<open>C5: the gene caller runs only when its output is missing\<close>

lemma processBin_step_prodigal:
  assumes "processBin_step E cfg j s = Some s'"
  shows "(WorkerCall i (ProdigalRun d f b) \<in> set (new_events s s')) =
           (j = i \<and> calcProc s ! i = AtProdigal f \<and> d = binDir_of E cfg f \<and>
            b = bNucORFs cfg \<and> \<not> areORFsCalled E d (world s))"
proof -
  have lt: "j < length (calcProc s)"
    using assms by (simp add: processBin_step_def split: if_splits)
  show ?thesis
  proof (cases "calcProc s ! j")
    case AtGet
    with assms lt show ?thesis
      by (auto simp: processBin_step_def new_events_def split: list.splits)
  next
    case (AtExtract g)
    with assms lt show ?thesis
      by (auto simp: processBin_step_def new_events_def split: sum.splits prod.splits)
  next
    case (AtParse g h)
    with assms lt show ?thesis
      by (auto simp: processBin_step_def new_events_def split: sum.splits)
  qed (use assms lt in \<open>auto simp: processBin_step_def after_call_def new_events_def
        search_call_def split: sum.splits if_splits\<close>)
qed

lemma pipeline_after_gene_calling:
  assumes i: "i < length (calcProc t)" and pc: "calcProc t ! i = AtExtract f"
    and hmmfile: "createHmmModelFile E (threadsPerSearch t) (binId_of E f) (markerFile cfg)
                    (world t) = Inr (h, w2)"
    and parsed: "models E h w2 = Inr m"
    and searched: "hmmer_search E h (aaGeneFile E (binDir_of E cfg f))
                   (os_path_join E [binDir_of E cfg f, tableOut cfg])
                   (os_path_join E [binDir_of E cfg f, hmmerOut cfg])
                   (search_params cfg (threadsPerSearch t)) (bKeepAlignment cfg) w2 = Inr w3"
    and removed: "os_remove E h w3 = Inr w4"
  shows "exec E cfg (replicate 5 (Worker i)) t =
           Some (t\<lparr>binIdToModels := (binIdToModels t)(binId_of E f \<mapsto> m),
                   calcProc := (calcProc t)[i := AtGet], world := w4,
                   writerQueue := writerQueue t @ [Some (binId_of E f)],
                   trace := trace t @
                     [WorkerCall i (CreateHmmModelFile (threadsPerSearch t) (binId_of E f)
                        (markerFile cfg)),
                      WorkerCall i (HmmModelParser h),
                      WorkerCall i (search_call E cfg (threadsPerSearch t) f h),
                      WorkerCall i (OsRemove h),
                      WorkerPut i (binId_of E f)]\<rparr>)"
  using assms
  by (simp add: replicate_numeral step_def processBin_step_def after_call_def search_call_def)

text \<open>
  C5.  Take a worker \<open>i\<close> at lines 95 to 97 with bin file \<open>f\<close>, in any state.
  When \<^verbatim>\<open>areORFsCalled()\<close> is true for the bin's directory, its step calls nothing,
  changes nothing but its own position, and leaves it at line 100.  When it is false, its
  step is the call of the gene caller on \<open>f\<close> with the caller's nucleotide flag, applied to
  the current world: the world is the one that call leaves, or the worker dies of the
  call's exception.  No other step of any process calls the gene caller.  In both cases the
  rest of the pipeline runs: if the collaborators do not raise, the worker's next
  statements create the model file, store the parsed models under the bin identifier, run
  the profile search, remove the model file and put the bin identifier on the completion
  queue, in this order and each on the world the previous one left.  A worker that holds a
  bin file is never blocked.
\<close>

theorem gene_caller_iff_not_called:
  assumes i: "i < length (calcProc s)" and pc: "calcProc s ! i = AtProdigal f"
  shows
    "(areORFsCalled E (binDir_of E cfg f) (world s) \<longrightarrow>
        step E cfg (Worker i) s = Some (s\<lparr>calcProc := (calcProc s)[i := AtExtract f]\<rparr>)) \<and>
     (\<not> areORFsCalled E (binDir_of E cfg f) (world s) \<longrightarrow>
        step E cfg (Worker i) s =
          Some (case prodigal_run E (binDir_of E cfg f) f (bNucORFs cfg) (world s) of
                  Inl e \<Rightarrow>
                    s\<lparr>calcProc := (calcProc s)[i := Raised e],
                      trace := trace s @
                        [WorkerCall i (ProdigalRun (binDir_of E cfg f) f (bNucORFs cfg))]\<rparr>
                | Inr w1 \<Rightarrow>
                    s\<lparr>calcProc := (calcProc s)[i := AtExtract f], world := w1,
                      trace := trace s @
                        [WorkerCall i (ProdigalRun (binDir_of E cfg f) f (bNucORFs cfg))]\<rparr>)) \<and>
     (\<forall>a t t' j d g b. step E cfg a t = Some t' \<longrightarrow>
        (WorkerCall j (ProdigalRun d g b) \<in> set (new_events t t')) =
          (a = Worker j \<and> calcProc t ! j = AtProdigal g \<and> d = binDir_of E cfg g \<and>
           b = bNucORFs cfg \<and> \<not> areORFsCalled E d (world t))) \<and>
     (\<forall>w1 h w2 m w3 w4.
        (if areORFsCalled E (binDir_of E cfg f) (world s) then w1 = world s
         else prodigal_run E (binDir_of E cfg f) f (bNucORFs cfg) (world s) = Inr w1) \<and>
        createHmmModelFile E (threadsPerSearch s) (binId_of E f) (markerFile cfg) w1 =
          Inr (h, w2) \<and>
        models E h w2 = Inr m \<and>
        hmmer_search E h (aaGeneFile E (binDir_of E cfg f))
          (os_path_join E [binDir_of E cfg f, tableOut cfg])
          (os_path_join E [binDir_of E cfg f, hmmerOut cfg])
          (search_params cfg (threadsPerSearch s)) (bKeepAlignment cfg) w2 = Inr w3 \<and>
        os_remove E h w3 = Inr w4 \<longrightarrow>
        exec E cfg (replicate 6 (Worker i)) s =
          Some (s\<lparr>binIdToModels := (binIdToModels s)(binId_of E f \<mapsto> m),
                  calcProc := (calcProc s)[i := AtGet], world := w4,
                  writerQueue := writerQueue s @ [Some (binId_of E f)],
                  trace := trace s @
                    (if areORFsCalled E (binDir_of E cfg f) (world s) then []
                     else [WorkerCall i (ProdigalRun (binDir_of E cfg f) f (bNucORFs cfg))]) @
                    [WorkerCall i (CreateHmmModelFile (threadsPerSearch s) (binId_of E f)
                       (markerFile cfg)),
                     WorkerCall i (HmmModelParser h),
                     WorkerCall i (search_call E cfg (threadsPerSearch s) f h),
                     WorkerCall i (OsRemove h),
                     WorkerPut i (binId_of E f)]\<rparr>)) \<and>
     (\<forall>t j g. j < length (calcProc t) \<and> job_of (calcProc t ! j) = Some g \<longrightarrow>
        (\<exists>t'. step E cfg (Worker j) t = Some t'))"
proof (intro conjI)
  show "areORFsCalled E (binDir_of E cfg f) (world s) \<longrightarrow>
      step E cfg (Worker i) s = Some (s\<lparr>calcProc := (calcProc s)[i := AtExtract f]\<rparr>)"
    using i pc by (simp add: step_def processBin_step_def)
next
  show "\<not> areORFsCalled E (binDir_of E cfg f) (world s) \<longrightarrow>
      step E cfg (Worker i) s =
        Some (case prodigal_run E (binDir_of E cfg f) f (bNucORFs cfg) (world s) of
                Inl e \<Rightarrow>
                  s\<lparr>calcProc := (calcProc s)[i := Raised e],
                    trace := trace s @
                      [WorkerCall i (ProdigalRun (binDir_of E cfg f) f (bNucORFs cfg))]\<rparr>
              | Inr w1 \<Rightarrow>
                  s\<lparr>calcProc := (calcProc s)[i := AtExtract f], world := w1,
                    trace := trace s @
                      [WorkerCall i (ProdigalRun (binDir_of E cfg f) f (bNucORFs cfg))]\<rparr>)"
    using i pc by (simp add: step_def processBin_step_def after_call_def)
next
  show "\<forall>a t t' j d g b. step E cfg a t = Some t' \<longrightarrow>
      (WorkerCall j (ProdigalRun d g b) \<in> set (new_events t t')) =
        (a = Worker j \<and> calcProc t ! j = AtProdigal g \<and> d = binDir_of E cfg g \<and>
         b = bNucORFs cfg \<and> \<not> areORFsCalled E d (world t))"
  proof (intro allI impI)
    fix a j d g b and t t' :: "('a, 'b) state"
    assume st: "step E cfg a t = Some t'"
    show "(WorkerCall j (ProdigalRun d g b) \<in> set (new_events t t')) =
        (a = Worker j \<and> calcProc t ! j = AtProdigal g \<and> d = binDir_of E cfg g \<and>
         b = bNucORFs cfg \<and> \<not> areORFsCalled E d (world t))"
    proof (cases a)
      case Orchestrator
      with st have "find_step t = Some t'" by (simp add: step_def)
      from find_step_frame(2) [OF this] Orchestrator show ?thesis
        by (simp add: new_events_def)
    next
      case (Worker k)
      with st have "processBin_step E cfg k t = Some t'" by (simp add: step_def)
      from processBin_step_prodigal [OF this, of j d g b] Worker show ?thesis by auto
    next
      case Reporter
      with st show ?thesis
        by (auto simp: step_def reportProgress_step_def write_status_def new_events_def
            split: reporter.splits list.splits option.splits sum.splits if_splits)
    qed
  qed
next
  show "\<forall>w1 h w2 m w3 w4.
        (if areORFsCalled E (binDir_of E cfg f) (world s) then w1 = world s
         else prodigal_run E (binDir_of E cfg f) f (bNucORFs cfg) (world s) = Inr w1) \<and>
        createHmmModelFile E (threadsPerSearch s) (binId_of E f) (markerFile cfg) w1 =
          Inr (h, w2) \<and>
        models E h w2 = Inr m \<and>
        hmmer_search E h (aaGeneFile E (binDir_of E cfg f))
          (os_path_join E [binDir_of E cfg f, tableOut cfg])
          (os_path_join E [binDir_of E cfg f, hmmerOut cfg])
          (search_params cfg (threadsPerSearch s)) (bKeepAlignment cfg) w2 = Inr w3 \<and>
        os_remove E h w3 = Inr w4 \<longrightarrow>
        exec E cfg (replicate 6 (Worker i)) s =
          Some (s\<lparr>binIdToModels := (binIdToModels s)(binId_of E f \<mapsto> m),
                  calcProc := (calcProc s)[i := AtGet], world := w4,
                  writerQueue := writerQueue s @ [Some (binId_of E f)],
                  trace := trace s @
                    (if areORFsCalled E (binDir_of E cfg f) (world s) then []
                     else [WorkerCall i (ProdigalRun (binDir_of E cfg f) f (bNucORFs cfg))]) @
                    [WorkerCall i (CreateHmmModelFile (threadsPerSearch s) (binId_of E f)
                       (markerFile cfg)),
                     WorkerCall i (HmmModelParser h),
                     WorkerCall i (search_call E cfg (threadsPerSearch s) f h),
                     WorkerCall i (OsRemove h),
                     WorkerPut i (binId_of E f)]\<rparr>)"
  proof (intro allI impI, elim conjE)
    fix w1 h w2 m w3 w4
    assume g: "if areORFsCalled E (binDir_of E cfg f) (world s) then w1 = world s
         else prodigal_run E (binDir_of E cfg f) f (bNucORFs cfg) (world s) = Inr w1"
      and hmmfile: "createHmmModelFile E (threadsPerSearch s) (binId_of E f) (markerFile cfg)
          w1 = Inr (h, w2)"
      and parsed: "models E h w2 = Inr m"
      and searched: "hmmer_search E h (aaGeneFile E (binDir_of E cfg f))
          (os_path_join E [binDir_of E cfg f, tableOut cfg])
          (os_path_join E [binDir_of E cfg f, hmmerOut cfg])
          (search_params cfg (threadsPerSearch s)) (bKeepAlignment cfg) w2 = Inr w3"
      and removed: "os_remove E h w3 = Inr w4"
    let ?ev = "WorkerCall i (ProdigalRun (binDir_of E cfg f) f (bNucORFs cfg))"
    let ?evs = "if areORFsCalled E (binDir_of E cfg f) (world s) then [] else [?ev]"
    let ?t = "s\<lparr>calcProc := (calcProc s)[i := AtExtract f], world := w1,
        trace := trace s @ ?evs\<rparr>"
    have st: "step E cfg (Worker i) s = Some ?t"
      using i pc g by (simp add: step_def processBin_step_def after_call_def)
    have "exec E cfg (replicate 5 (Worker i)) ?t =
        Some (?t\<lparr>binIdToModels := (binIdToModels ?t)(binId_of E f \<mapsto> m),
                calcProc := (calcProc ?t)[i := AtGet], world := w4,
                writerQueue := writerQueue ?t @ [Some (binId_of E f)],
                trace := trace ?t @
                  [WorkerCall i (CreateHmmModelFile (threadsPerSearch ?t) (binId_of E f)
                     (markerFile cfg)),
                   WorkerCall i (HmmModelParser h),
                   WorkerCall i (search_call E cfg (threadsPerSearch ?t) f h),
                   WorkerCall i (OsRemove h),
                   WorkerPut i (binId_of E f)]\<rparr>)"
      using i hmmfile parsed searched removed
      by (intro pipeline_after_gene_calling) simp_all
    moreover have "exec E cfg (replicate 6 (Worker i)) s =
        exec E cfg (replicate 5 (Worker i)) ?t"
      using st by (simp add: replicate_numeral)
    ultimately show "exec E cfg (replicate 6 (Worker i)) s =
          Some (s\<lparr>binIdToModels := (binIdToModels s)(binId_of E f \<mapsto> m),
                  calcProc := (calcProc s)[i := AtGet], world := w4,
                  writerQueue := writerQueue s @ [Some (binId_of E f)],
                  trace := trace s @ ?evs @
                    [WorkerCall i (CreateHmmModelFile (threadsPerSearch s) (binId_of E f)
                       (markerFile cfg)),
                     WorkerCall i (HmmModelParser h),
                     WorkerCall i (search_call E cfg (threadsPerSearch s) f h),
                     WorkerCall i (OsRemove h),
                     WorkerPut i (binId_of E f)]\<rparr>)"
      by simp
  qed
next
  show "\<forall>t j g. j < length (calcProc t) \<and> job_of (calcProc t ! j) = Some g \<longrightarrow>
      (\<exists>t'. step E cfg (Worker j) t = Some t')"
    using holding_worker_enabled by blast
qed

theorem gene_caller_iff_not_called_witness:
  "\<exists>s0 s s6 t0 t t6.
     find_init (demo_cfg 1 [Some ''a.fa'']) [] = Inr s0 \<and>
     exec (demo_env True) (demo_cfg 1 [Some ''a.fa'']) (take 6 (demo_sched1 9 1)) s0 = Some s \<and>
     0 < length (calcProc s) \<and> calcProc s ! 0 = AtProdigal ''a.fa'' \<and>
     \<not> areORFsCalled (demo_env True) ''out/bins/a'' (world s) \<and>
     exec (demo_env True) (demo_cfg 1 [Some ''a.fa'']) (replicate 6 (Worker 0)) s = Some s6 \<and>
     world s6 = [''out/bins/a''] \<and> writerQueue s6 = [Some ''a''] \<and>
     binIdToModels s6 ''a'' = Some ''/tmp/a.hmm'' \<and>
     hd (new_events s s6) = WorkerCall 0 (ProdigalRun ''out/bins/a'' ''a.fa'' False) \<and>
     length (new_events s s6) = 6 \<and>
     find_init (demo_cfg 1 [Some ''a.fa'']) [''out/bins/a''] = Inr t0 \<and>
     exec (demo_env True) (demo_cfg 1 [Some ''a.fa'']) (take 6 (demo_sched1 9 1)) t0 = Some t \<and>
     0 < length (calcProc t) \<and> calcProc t ! 0 = AtProdigal ''a.fa'' \<and>
     areORFsCalled (demo_env True) ''out/bins/a'' (world t) \<and>
     exec (demo_env True) (demo_cfg 1 [Some ''a.fa'']) (replicate 6 (Worker 0)) t = Some t6 \<and>
     world t6 = [''out/bins/a''] \<and> writerQueue t6 = [Some ''a''] \<and>
     binIdToModels t6 ''a'' = Some ''/tmp/a.hmm'' \<and>
     new_events t t6 =
       [WorkerCall 0 (CreateHmmModelFile 1 ''a'' ''m.hmm''),
        WorkerCall 0 (HmmModelParser ''/tmp/a.hmm''),
        WorkerCall 0 (HmmerSearch ''/tmp/a.hmm'' ''out/bins/a/genes.faa'' ''out/bins/a/t.txt''
          ''out/bins/a/h.txt'' ''--cpu 1 --notextw -E 0.1 --domE 0.1 --noali'' False),
        WorkerCall 0 (OsRemove ''/tmp/a.hmm''),
        WorkerPut 0 ''a'']"
proof -
  let ?cfg = "demo_cfg 1 [Some ''a.fa'']"
  let ?E = "demo_env True"
  have bd: "binDir_of ?E ?cfg ''a.fa'' = ''out/bins/a''" "bNucORFs ?cfg = False"
    "binId_of ?E ''a.fa'' = ''a''" "markerFile ?cfg = ''m.hmm''"
    "bKeepAlignment ?cfg = False"
    by (simp_all add: binDir_of_def binId_of_def demo_env_def demo_cfg_def)
  have sc: "search_call ?E ?cfg 1 ''a.fa'' ''/tmp/a.hmm'' =
      HmmerSearch ''/tmp/a.hmm'' ''out/bins/a/genes.faa'' ''out/bins/a/t.txt''
        ''out/bins/a/h.txt'' ''--cpu 1 --notextw -E 0.1 --domE 0.1 --noali'' False"
    by (simp add: search_call_def search_params_def keepAlignStr_def str_int_def
        str_nat.simps binDir_of_def binId_of_def demo_env_def demo_cfg_def)
  have cols: "prodigal_run ?E d f b w = Inr (d # w)"
    "createHmmModelFile ?E n ''a'' mf w = Inr (''/tmp/a.hmm'', w)"
    "models ?E h w = Inr h" "hmmer_search ?E h a tb fl p k w = Inr w"
    "os_remove ?E h w = Inr w" "areORFsCalled ?E d w = (d \<in> set w)"
    for d f b w n mf h a tb fl p k
    by (simp_all add: demo_env_def)
  obtain s0 :: "(string list, string) state" where s0: "find_init ?cfg [] = Inr s0"
    by (simp add: find_init_def threadBudget_def demo_cfg_def)
  have "\<exists>s. exec ?E ?cfg (take 6 (demo_sched1 9 1)) s0 = Some s \<and>
      0 < length (calcProc s) \<and> calcProc s ! 0 = AtProdigal ''a.fa'' \<and> world s = [] \<and>
      threadsPerSearch s = 1 \<and> writerQueue s = [] \<and> binIdToModels s = Map.empty"
    by (simp add: find_init_Inr(2) [OF s0] eval_defs)
  then obtain s where s: "exec ?E ?cfg (take 6 (demo_sched1 9 1)) s0 = Some s"
    "0 < length (calcProc s)" "calcProc s ! 0 = AtProdigal ''a.fa''" "world s = []"
    "threadsPerSearch s = 1" "writerQueue s = []" "binIdToModels s = Map.empty"
    by blast
  note ths = gene_caller_iff_not_called [OF s(2,3), of ?E ?cfg]
  from ths have "(if areORFsCalled ?E (binDir_of ?E ?cfg ''a.fa'') (world s)
         then [''out/bins/a''] = world s
         else prodigal_run ?E (binDir_of ?E ?cfg ''a.fa'') ''a.fa'' (bNucORFs ?cfg) (world s) =
              Inr [''out/bins/a'']) \<and>
        createHmmModelFile ?E (threadsPerSearch s) (binId_of ?E ''a.fa'') (markerFile ?cfg)
          [''out/bins/a''] = Inr (''/tmp/a.hmm'', [''out/bins/a'']) \<and>
        models ?E ''/tmp/a.hmm'' [''out/bins/a''] = Inr ''/tmp/a.hmm'' \<and>
        hmmer_search ?E ''/tmp/a.hmm'' (aaGeneFile ?E (binDir_of ?E ?cfg ''a.fa''))
          (os_path_join ?E [binDir_of ?E ?cfg ''a.fa'', tableOut ?cfg])
          (os_path_join ?E [binDir_of ?E ?cfg ''a.fa'', hmmerOut ?cfg])
          (search_params ?cfg (threadsPerSearch s)) (bKeepAlignment ?cfg) [''out/bins/a''] =
          Inr [''out/bins/a''] \<and>
        os_remove ?E ''/tmp/a.hmm'' [''out/bins/a''] = Inr [''out/bins/a''] \<longrightarrow>
        exec ?E ?cfg (replicate 6 (Worker 0)) s =
          Some (s\<lparr>binIdToModels := (binIdToModels s)(binId_of ?E ''a.fa'' \<mapsto> ''/tmp/a.hmm''),
                  calcProc := (calcProc s)[0 := AtGet], world := [''out/bins/a''],
                  writerQueue := writerQueue s @ [Some (binId_of ?E ''a.fa'')],
                  trace := trace s @
                    (if areORFsCalled ?E (binDir_of ?E ?cfg ''a.fa'') (world s) then []
                     else [WorkerCall 0 (ProdigalRun (binDir_of ?E ?cfg ''a.fa'') ''a.fa''
                             (bNucORFs ?cfg))]) @
                    [WorkerCall 0 (CreateHmmModelFile (threadsPerSearch s)
                       (binId_of ?E ''a.fa'') (markerFile ?cfg)),
                     WorkerCall 0 (HmmModelParser ''/tmp/a.hmm''),
                     WorkerCall 0 (search_call ?E ?cfg (threadsPerSearch s) ''a.fa''
                       ''/tmp/a.hmm''),
                     WorkerCall 0 (OsRemove ''/tmp/a.hmm''),
                     WorkerPut 0 (binId_of ?E ''a.fa'')]\<rparr>)"
    by blast
  with s(4,5,6) bd cols
  have "\<exists>s6. exec ?E ?cfg (replicate 6 (Worker 0)) s = Some s6 \<and>
      world s6 = [''out/bins/a''] \<and> writerQueue s6 = [Some ''a''] \<and>
      binIdToModels s6 ''a'' = Some ''/tmp/a.hmm'' \<and>
      hd (new_events s s6) = WorkerCall 0 (ProdigalRun ''out/bins/a'' ''a.fa'' False) \<and>
      length (new_events s s6) = 6"
    by (simp add: new_events_def)
  then obtain s6 where s6: "exec ?E ?cfg (replicate 6 (Worker 0)) s = Some s6"
    "world s6 = [''out/bins/a'']" "writerQueue s6 = [Some ''a'']"
    "binIdToModels s6 ''a'' = Some ''/tmp/a.hmm''"
    "hd (new_events s s6) = WorkerCall 0 (ProdigalRun ''out/bins/a'' ''a.fa'' False)"
    "length (new_events s s6) = 6"
    by blast
  obtain t0 :: "(string list, string) state"
    where t0: "find_init ?cfg [''out/bins/a''] = Inr t0"
    by (simp add: find_init_def threadBudget_def demo_cfg_def)
  have "\<exists>t. exec ?E ?cfg (take 6 (demo_sched1 9 1)) t0 = Some t \<and>
      0 < length (calcProc t) \<and> calcProc t ! 0 = AtProdigal ''a.fa'' \<and>
      world t = [''out/bins/a''] \<and> threadsPerSearch t = 1 \<and> writerQueue t = []"
    by (simp add: find_init_Inr(2) [OF t0] eval_defs)
  then obtain t where t: "exec ?E ?cfg (take 6 (demo_sched1 9 1)) t0 = Some t"
    "0 < length (calcProc t)" "calcProc t ! 0 = AtProdigal ''a.fa''"
    "world t = [''out/bins/a'']" "threadsPerSearch t = 1" "writerQueue t = []"
    by blast
  note tht = gene_caller_iff_not_called [OF t(2,3), of ?E ?cfg]
  from tht have "(if areORFsCalled ?E (binDir_of ?E ?cfg ''a.fa'') (world t)
         then [''out/bins/a''] = world t
         else prodigal_run ?E (binDir_of ?E ?cfg ''a.fa'') ''a.fa'' (bNucORFs ?cfg) (world t) =
              Inr [''out/bins/a'']) \<and>
        createHmmModelFile ?E (threadsPerSearch t) (binId_of ?E ''a.fa'') (markerFile ?cfg)
          [''out/bins/a''] = Inr (''/tmp/a.hmm'', [''out/bins/a'']) \<and>
        models ?E ''/tmp/a.hmm'' [''out/bins/a''] = Inr ''/tmp/a.hmm'' \<and>
        hmmer_search ?E ''/tmp/a.hmm'' (aaGeneFile ?E (binDir_of ?E ?cfg ''a.fa''))
          (os_path_join ?E [binDir_of ?E ?cfg ''a.fa'', tableOut ?cfg])
          (os_path_join ?E [binDir_of ?E ?cfg ''a.fa'', hmmerOut ?cfg])
          (search_params ?cfg (threadsPerSearch t)) (bKeepAlignment ?cfg) [''out/bins/a''] =
          Inr [''out/bins/a''] \<and>
        os_remove ?E ''/tmp/a.hmm'' [''out/bins/a''] = Inr [''out/bins/a''] \<longrightarrow>
        exec ?E ?cfg (replicate 6 (Worker 0)) t =
          Some (t\<lparr>binIdToModels := (binIdToModels t)(binId_of ?E ''a.fa'' \<mapsto> ''/tmp/a.hmm''),
                  calcProc := (calcProc t)[0 := AtGet], world := [''out/bins/a''],
                  writerQueue := writerQueue t @ [Some (binId_of ?E ''a.fa'')],
                  trace := trace t @
                    (if areORFsCalled ?E (binDir_of ?E ?cfg ''a.fa'') (world t) then []
                     else [WorkerCall 0 (ProdigalRun (binDir_of ?E ?cfg ''a.fa'') ''a.fa''
                             (bNucORFs ?cfg))]) @
                    [WorkerCall 0 (CreateHmmModelFile (threadsPerSearch t)
                       (binId_of ?E ''a.fa'') (markerFile ?cfg)),
                     WorkerCall 0 (HmmModelParser ''/tmp/a.hmm''),
                     WorkerCall 0 (search_call ?E ?cfg (threadsPerSearch t) ''a.fa''
                       ''/tmp/a.hmm''),
                     WorkerCall 0 (OsRemove ''/tmp/a.hmm''),
                     WorkerPut 0 (binId_of ?E ''a.fa'')]\<rparr>)"
    by blast
  with t(4,5,6) bd cols sc
  have "\<exists>t6. exec ?E ?cfg (replicate 6 (Worker 0)) t = Some t6 \<and>
      world t6 = [''out/bins/a''] \<and> writerQueue t6 = [Some ''a''] \<and>
      binIdToModels t6 ''a'' = Some ''/tmp/a.hmm'' \<and>
      new_events t t6 =
        [WorkerCall 0 (CreateHmmModelFile 1 ''a'' ''m.hmm''),
         WorkerCall 0 (HmmModelParser ''/tmp/a.hmm''),
         WorkerCall 0 (HmmerSearch ''/tmp/a.hmm'' ''out/bins/a/genes.faa'' ''out/bins/a/t.txt''
           ''out/bins/a/h.txt'' ''--cpu 1 --notextw -E 0.1 --domE 0.1 --noali'' False),
         WorkerCall 0 (OsRemove ''/tmp/a.hmm''),
         WorkerPut 0 ''a'']"
    by (simp add: new_events_def)
  then obtain t6 where t6: "exec ?E ?cfg (replicate 6 (Worker 0)) t = Some t6"
    "world t6 = [''out/bins/a'']" "writerQueue t6 = [Some ''a'']"
    "binIdToModels t6 ''a'' = Some ''/tmp/a.hmm''"
    "new_events t t6 =
        [WorkerCall 0 (CreateHmmModelFile 1 ''a'' ''m.hmm''),
         WorkerCall 0 (HmmModelParser ''/tmp/a.hmm''),
         WorkerCall 0 (HmmerSearch ''/tmp/a.hmm'' ''out/bins/a/genes.faa'' ''out/bins/a/t.txt''
           ''out/bins/a/h.txt'' ''--cpu 1 --notextw -E 0.1 --domE 0.1 --noali'' False),
         WorkerCall 0 (OsRemove ''/tmp/a.hmm''),
         WorkerPut 0 ''a'']"
    by blast
  have "areORFsCalled ?E ''out/bins/a'' (world t)" "\<not> areORFsCalled ?E ''out/bins/a'' (world s)"
    using s(4) t(4) by (simp_all add: cols)
  with s0 s(1,2,3) s6 t0 t(1,2,3) t6 show ?thesis by blast
qed

subsection \<open>C6: the parameters of the profile search\<close>





subsection \<open>C8: a failing removal of the model file\<close>



lemma exec_length_calcProc:
  "exec E cfg sched s = Some s' \<Longrightarrow> length (calcProc s') = length (calcProc s)"
proof (induction sched arbitrary: s)
  case Nil
  then show ?case by simp
next
  case (Cons a sched)
  from Cons.prems obtain s1 where s1: "step E cfg a s = Some s1"
    "exec E cfg sched s1 = Some s'"
    by (auto split: option.splits)
  from step_length_calcProc [OF s1(1)] Cons.IH [OF s1(2)] show ?case by simp
qed






subsection \<open>C9: the progress lines\<close>





end
